theory Spec2Isabelle
  imports Main "HOL-Library.Multiset"
begin

section \<open>Python values shared by the three modules\<close>

text \<open>
  Exceptions are values. The constructors are the exception classes that the three source
  files raise or catch themselves, plus \<open>OtherError\<close> for any other class a callback
  may raise (class name and message).
\<close>

datatype exn =
    KeyError
  | TypeError string
  | RuntimeError string
  | AttributeError string
  | ValueError string
  | Cancelled
  | OtherError string string

text \<open>\<open>str(n)\<close> for the integers that the source formats into messages and names.\<close>

fun str_nat :: "nat \<Rightarrow> string" where
  "str_nat n =
     (if n < 10 then [''0123456789'' ! n]
      else str_nat (n div 10) @ [''0123456789'' ! (n mod 10)])"

declare str_nat.simps [simp del]

definition str_int :: "int \<Rightarrow> string" where
  "str_int i = (if i < 0 then ''-'' @ str_nat (nat (- i)) else str_nat (nat i))"

section \<open>The thread cache: \<open>trio/_core/_thread_cache.py\<close>\<close>

subsection \<open>The insertion-ordered dict used as the idle registry\<close>

text \<open>
  \<open>ThreadCache._idle_workers\<close> is a \<open>dict\<close> whose values are all \<open>None\<close>; the model keeps
  its keys in insertion order, oldest first. The three operations are the ones the source
  uses: \<open>d[k] = None\<close>, \<open>del d[k]\<close> and \<open>d.popitem()\<close>. Assigning to a key that is already
  present keeps the key's position; the last two raise \<open>KeyError\<close> on a missing key and on
  an empty dict.
\<close>

definition dict_setitem :: "'k list \<Rightarrow> 'k \<Rightarrow> 'k list" where
  "dict_setitem d k = (if k \<in> set d then d else d @ [k])"

definition dict_delitem :: "'k list \<Rightarrow> 'k \<Rightarrow> exn + 'k list" where
  "dict_delitem d k = (if k \<in> set d then Inr (removeAll k d) else Inl KeyError)"

definition dict_popitem :: "'k list \<Rightarrow> exn + ('k \<times> 'k list)" where
  "dict_popitem d = (if d = [] then Inl KeyError else Inr (last d, butlast d))"

subsection \<open>Jobs, outcomes and locks\<close>

text \<open>
  A Python callable is represented by what a call of it does: return a value or raise.
  \<open>fn\<close> takes no argument; \<open>deliver\<close> takes the outcome of \<open>fn\<close> and returns \<open>None\<close>.
\<close>

datatype 'v outcome = Value 'v | Error exn

type_synonym 'v fn = "unit \<Rightarrow> exn + 'v"
type_synonym 'v deliver = "'v outcome \<Rightarrow> exn + unit"

text \<open>
  Modelled from the spec: \<open>outcome.capture\<close>, of the external library \<open>outcome\<close>, which is
  not part of this repository: "a mechanism by which result capture can distinguish normal
  return from raised failure", producing "a tagged union/result type" from "invoking work
  inside a failure-catching boundary".
\<close>

definition capture :: "'v fn \<Rightarrow> 'v outcome" where
  "capture fn = (case fn () of Inr v \<Rightarrow> Value v | Inl e \<Rightarrow> Error e)"

text \<open>
  \<open>threading.Lock\<close>. A new lock is unlocked. \<open>lock_try\<close> is one attempt to take the lock:
  it says whether the lock was taken and gives the lock afterwards. \<open>release\<close> of an
  unlocked lock raises \<open>RuntimeError\<close>.
\<close>

datatype lock = Unlocked | Locked

definition Lock :: lock where
  "Lock = Unlocked"

definition lock_try :: "lock \<Rightarrow> bool \<times> lock" where
  "lock_try l = (case l of Unlocked \<Rightarrow> (True, Locked) | Locked \<Rightarrow> (False, Locked))"

definition lock_release :: "lock \<Rightarrow> exn + lock" where
  "lock_release l =
     (case l of Locked \<Rightarrow> Inr Unlocked | Unlocked \<Rightarrow> Inl (RuntimeError ''release unlocked lock''))"

text \<open>How long a thread idles waiting for new work before it gives up, in seconds.\<close>

definition IDLE_TIMEOUT :: nat where
  "IDLE_TIMEOUT = 10"

subsection \<open>Objects and the shared state\<close>

type_synonym wid = nat

record thread =
  daemon :: bool
  name :: string
  started :: bool

record 'v worker_thread =
  job :: "('v fn \<times> 'v deliver) option"
  worker_lock :: lock
  thread :: thread

text \<open>
  What the program does, in the order in which it happens: its statements whose order
  matters, each with the worker concerned; the run of \<open>fn\<close> and the call of \<open>deliver\<close>
  also with the job at hand, \<open>fn\<close> and \<open>deliver\<close>, and the result. It is observation
  only: no statement of the program reads it.
\<close>

datatype 'v event =
    Ev_spawned wid
  | Ev_popped wid
  | Ev_job_set wid
  | Ev_released wid
  | Ev_ran wid "'v fn" "'v deliver" "'v outcome"
  | Ev_registered wid
  | Ev_deliver_called wid "'v fn" "'v deliver" "'v outcome"
  | Ev_unregistered wid

datatype stderr_item = Line string | Traceback exn

text \<open>
  The state shared by all threads: the one \<open>ThreadCache\<close> of the process with its idle
  registry, the \<open>WorkerThread\<close> objects (a worker's identity is its index), the module's
  \<open>name_counter\<close>, and standard error. A worker's \<open>_thread_cache\<close> field is this cache.
\<close>

record 'v shared =
  idle_workers :: "wid list"
  workers :: "'v worker_thread list"
  name_counter :: nat
  stderr :: "stderr_item list"
  trace :: "'v event list"

definition ThreadCache_init :: "'v shared" where
  "ThreadCache_init =
     \<lparr>idle_workers = [], workers = [], name_counter = 0, stderr = [], trace = []\<rparr>"

definition emit :: "'v event \<Rightarrow> 'v shared \<Rightarrow> 'v shared" where
  "emit ev s = s\<lparr>trace := trace s @ [ev]\<rparr>"

subsection \<open>\<open>WorkerThread.__init__\<close>\<close>

text \<open>
  Lines 46 to 59. The job slot is \<open>None\<close>; the lock is created and taken at once (a new
  lock is free, so the blocking \<open>acquire()\<close> returns immediately); the thread is created
  with \<open>daemon=True\<close>, named after the next value of \<open>name_counter\<close>, and started on
  \<open>self._work\<close>. The new object is not put into the idle registry.

  Whether \<open>thread.start()\<close> of line 59 starts a thread is up to the operating system:
  \<open>start_error\<close> is \<open>None\<close> when it does, and \<open>Some e\<close> when \<open>start()\<close> raises \<open>e\<close>
  (\<open>RuntimeError\<close>, "can't start new thread"). Then the constructor raises \<open>e\<close>: the
  name has been taken from \<open>name_counter\<close> at line 58, there is no thread, and the object
  under construction is dropped, so no worker is added.
\<close>

definition WorkerThread_init :: "exn option \<Rightarrow> 'v shared \<Rightarrow> (exn + wid) \<times> 'v shared" where
  "WorkerThread_init start_error s =
     (let self = length (workers s);
          l = snd (lock_try Lock);
          th = \<lparr>daemon = True,
                name = ''Trio worker thread '' @ str_nat (name_counter s),
                started = True\<rparr>;
          s1 = s\<lparr>name_counter := Suc (name_counter s)\<rparr>
      in case start_error of
           Some e \<Rightarrow> (Inl e, s1)
         | None \<Rightarrow>
             (Inr self,
              emit (Ev_spawned self)
                (s1\<lparr>workers := workers s @ [\<lparr>job = None, worker_lock = l, thread = th\<rparr>]\<rparr>)))"

subsection \<open>\<open>WorkerThread._handle_job\<close>, statement by statement\<close>

text \<open>
  Lines 64 and 65: unpack the job slot and clear it. Unpacking \<open>None\<close> raises
  \<open>TypeError\<close>.
\<close>

definition take_job :: "wid \<Rightarrow> 'v shared \<Rightarrow> exn + (('v fn \<times> 'v deliver) \<times> 'v shared)" where
  "take_job self s =
     (case job (workers s ! self) of
        None \<Rightarrow> Inl (TypeError ''cannot unpack non-iterable NoneType object'')
      | Some j \<Rightarrow> Inr (j, s\<lparr>workers := (workers s)[self := (workers s ! self)\<lparr>job := None\<rparr>]\<rparr>))"

text \<open>
  Line 66: \<open>result = outcome.capture(fn)\<close>. The local variable \<open>deliver\<close> is passed for
  the trace only.
\<close>

definition run_fn ::
  "wid \<Rightarrow> 'v fn \<Rightarrow> 'v deliver \<Rightarrow> 'v shared \<Rightarrow> 'v outcome \<times> 'v shared" where
  "run_fn self fn deliver s =
     (let result = capture fn in (result, emit (Ev_ran self fn deliver result) s))"

text \<open>Line 71: \<open>self._thread_cache._idle_workers[self] = None\<close>.\<close>

definition register_idle :: "wid \<Rightarrow> 'v shared \<Rightarrow> 'v shared" where
  "register_idle self s =
     emit (Ev_registered self) (s\<lparr>idle_workers := dict_setitem (idle_workers s) self\<rparr>)"

text \<open>
  What becomes of the two writes to standard error of lines 75 and 76, which is up to the
  file object behind \<open>sys.stderr\<close>: both are written; or the \<open>print\<close> of line 75
  raises, and nothing is written; or \<open>traceback.print_exception\<close> of line 76 raises
  after the line of 75 has been written. A write raises for instance \<open>ValueError\<close> when
  the file has been closed.
\<close>

datatype report = Report_written | Print_raises exn | Print_exception_raises exn

text \<open>
  Lines 72 to 76: call \<open>deliver(result)\<close>; any exception it raises (\<open>BaseException\<close>) is
  caught, and the message and the traceback are printed to standard error. The two
  writes are inside the \<open>except\<close> clause with nothing around them, so an exception that
  one of them raises leaves the method: the result is \<open>Some\<close> of it, and \<open>None\<close> when
  the method returns. The local variable \<open>fn\<close> is passed for the trace only.
\<close>

definition call_deliver ::
  "wid \<Rightarrow> 'v fn \<Rightarrow> 'v deliver \<Rightarrow> 'v outcome \<Rightarrow> report \<Rightarrow> 'v shared \<Rightarrow>
   exn option \<times> 'v shared" where
  "call_deliver self fn deliver result rep s =
     (let s1 = emit (Ev_deliver_called self fn deliver result) s
      in case deliver result of
           Inr _ \<Rightarrow> (None, s1)
         | Inl e \<Rightarrow>
             (case rep of
                Report_written \<Rightarrow>
                  (None,
                   s1\<lparr>stderr := stderr s1 @
                        [Line ''Exception while delivering result of thread'', Traceback e]\<rparr>)
              | Print_raises e' \<Rightarrow> (Some e', s1)
              | Print_exception_raises e' \<Rightarrow>
                  (Some e',
                   s1\<lparr>stderr := stderr s1 @
                        [Line ''Exception while delivering result of thread'']\<rparr>)))"

text \<open>
  The method as a whole, run without another thread in between: \<open>None\<close> when it
  returns, \<open>Some\<close> of the exception that leaves it otherwise.
\<close>

definition handle_job :: "wid \<Rightarrow> report \<Rightarrow> 'v shared \<Rightarrow> exn option \<times> 'v shared" where
  "handle_job self rep s =
     (case take_job self s of
        Inl e \<Rightarrow> (Some e, s)
      | Inr ((fn, deliver), s1) \<Rightarrow>
          (let (result, s2) = run_fn self fn deliver s1;
               s3 = register_idle self s2
           in call_deliver self fn deliver result rep s3))"

subsection \<open>\<open>WorkerThread._work\<close>\<close>

text \<open>
  Lines 87 to 98, the branch taken when the wait timed out: \<open>del\<close> of the worker's own
  key. \<open>True\<close> is the \<open>else\<close> branch (the key was there, \<open>return\<close>), \<open>False\<close> the
  \<open>KeyError\<close> branch (\<open>continue\<close>); \<open>KeyError\<close> is the only exception \<open>del\<close> raises.
\<close>

definition del_idle :: "wid \<Rightarrow> 'v shared \<Rightarrow> bool \<times> 'v shared" where
  "del_idle self s =
     (case dict_delitem (idle_workers s) self of
        Inl _ \<Rightarrow> (False, s)
      | Inr d \<Rightarrow> (True, emit (Ev_unregistered self) (s\<lparr>idle_workers := d\<rparr>)))"

text \<open>
  One turn of the \<open>while True\<close> loop, given what
  \<open>self._worker_lock.acquire(timeout=IDLE_TIMEOUT)\<close> returned. When it returned \<open>True\<close>
  the lock is now held by the worker. Nothing in \<open>_work\<close> catches what leaves
  \<open>_handle_job\<close>: the thread ends with that exception (\<open>Uncaught\<close>).
\<close>

datatype 'v loop = Continue "'v shared" | Return "'v shared" | Uncaught exn "'v shared"

definition lock_worker :: "wid \<Rightarrow> 'v shared \<Rightarrow> 'v shared" where
  "lock_worker self s =
     s\<lparr>workers := (workers s)[self := (workers s ! self)\<lparr>worker_lock := Locked\<rparr>]\<rparr>"

definition work_body :: "wid \<Rightarrow> bool \<Rightarrow> report \<Rightarrow> 'v shared \<Rightarrow> 'v loop" where
  "work_body self acquired rep s =
     (if acquired then
        (case handle_job self rep (lock_worker self s) of
           (Some e, s') \<Rightarrow> Uncaught e s'
         | (None, s') \<Rightarrow> Continue s')
      else
        (case del_idle self s of
           (False, s') \<Rightarrow> Continue s'
         | (True, s') \<Rightarrow> Return s'))"

subsection \<open>\<open>ThreadCache.start_thread_soon\<close>\<close>

text \<open>
  Lines 106 to 109: pop the most recently added idle worker, or construct one. An
  exception of the constructor is raised inside the \<open>except KeyError\<close> clause and leaves
  \<open>start_thread_soon\<close>.
\<close>

definition pop_or_spawn :: "exn option \<Rightarrow> 'v shared \<Rightarrow> (exn + wid) \<times> 'v shared" where
  "pop_or_spawn start_error s =
     (case dict_popitem (idle_workers s) of
        Inr (worker, d) \<Rightarrow> (Inr worker, emit (Ev_popped worker) (s\<lparr>idle_workers := d\<rparr>))
      | Inl _ \<Rightarrow> WorkerThread_init start_error s)"

text \<open>Line 110: \<open>worker._job = (fn, deliver)\<close>.\<close>

definition set_job :: "wid \<Rightarrow> 'v fn \<Rightarrow> 'v deliver \<Rightarrow> 'v shared \<Rightarrow> 'v shared" where
  "set_job worker fn deliver s =
     emit (Ev_job_set worker)
       (s\<lparr>workers := (workers s)[worker := (workers s ! worker)\<lparr>job := Some (fn, deliver)\<rparr>]\<rparr>)"

text \<open>Line 111: \<open>worker._worker_lock.release()\<close>.\<close>

definition release :: "wid \<Rightarrow> 'v shared \<Rightarrow> exn + 'v shared" where
  "release worker s =
     (case lock_release (worker_lock (workers s ! worker)) of
        Inl e \<Rightarrow> Inl e
      | Inr l \<Rightarrow>
          Inr (emit (Ev_released worker)
                 (s\<lparr>workers := (workers s)[worker := (workers s ! worker)\<lparr>worker_lock := l\<rparr>]\<rparr>)))"

text \<open>
  The method as a whole, run without another thread in between: \<open>None\<close> when it
  returns, \<open>Some\<close> of the exception that it raises otherwise.
\<close>

definition start_thread_soon ::
  "exn option \<Rightarrow> 'v fn \<Rightarrow> 'v deliver \<Rightarrow> 'v shared \<Rightarrow> exn option \<times> 'v shared" where
  "start_thread_soon start_error fn deliver s =
     (case pop_or_spawn start_error s of
        (Inl e, s1) \<Rightarrow> (Some e, s1)
      | (Inr worker, s1) \<Rightarrow>
          (let s2 = set_job worker fn deliver s1
           in case release worker s2 of
                Inl e \<Rightarrow> (Some e, s2)
              | Inr s3 \<Rightarrow> (None, s3)))"

subsection \<open>Threads running together\<close>

text \<open>
  Every thread runs one statement at a time, and the statements of different threads
  interleave in any order. A worker thread is at one of the statements of \<open>_work\<close> and
  \<open>_handle_job\<close>; a thread that called \<open>start_thread_soon\<close> is at one of its three
  statements. The control points carry the local variables that are live there.
\<close>

datatype 'v wpc =
    W_acquire
  | W_take_job
  | W_capture "'v fn" "'v deliver"
  | W_register "'v fn" "'v deliver" "'v outcome"
  | W_deliver "'v fn" "'v deliver" "'v outcome"
  | W_del_idle
  | W_exited
  | W_crashed exn

datatype 'v cpc =
    C_pop "'v fn" "'v deliver"
  | C_set_job wid "'v fn" "'v deliver"
  | C_release wid
  | C_returned
  | C_raised exn

record 'v config =
  shared :: "'v shared"
  wpcs :: "'v wpc list"
  cpcs :: "'v cpc list"

definition init_config :: "'v config" where
  "init_config = \<lparr>shared = ThreadCache_init, wpcs = [], cpcs = []\<rparr>"

text \<open>
  The next statement of worker thread \<open>w\<close>, where \<open>rep\<close> is what becomes of the writes
  to standard error if the statement makes them. At line 80 the thread goes on only when
  the lock is free, and takes it; otherwise it stays blocked (\<open>None\<close>). A thread that
  has returned from \<open>_work\<close>, or died of an uncaught exception, has no next statement.
\<close>

definition worker_next :: "report \<Rightarrow> wid \<Rightarrow> 'v config \<Rightarrow> 'v config option" where
  "worker_next rep w c =
     (if length (wpcs c) \<le> w then None
      else
        (let s = shared c in
         case wpcs c ! w of
           W_acquire \<Rightarrow>
             (if fst (lock_try (worker_lock (workers s ! w)))
              then Some (c\<lparr>shared := lock_worker w s, wpcs := (wpcs c)[w := W_take_job]\<rparr>)
              else None)
         | W_take_job \<Rightarrow>
             (case take_job w s of
                Inl e \<Rightarrow> Some (c\<lparr>wpcs := (wpcs c)[w := W_crashed e]\<rparr>)
              | Inr ((fn, deliver), s1) \<Rightarrow>
                  Some (c\<lparr>shared := s1, wpcs := (wpcs c)[w := W_capture fn deliver]\<rparr>))
         | W_capture fn deliver \<Rightarrow>
             (let (result, s1) = run_fn w fn deliver s
              in Some (c\<lparr>shared := s1,
                         wpcs := (wpcs c)[w := W_register fn deliver result]\<rparr>))
         | W_register fn deliver result \<Rightarrow>
             Some (c\<lparr>shared := register_idle w s,
                     wpcs := (wpcs c)[w := W_deliver fn deliver result]\<rparr>)
         | W_deliver fn deliver result \<Rightarrow>
             (case call_deliver w fn deliver result rep s of
                (None, s1) \<Rightarrow> Some (c\<lparr>shared := s1, wpcs := (wpcs c)[w := W_acquire]\<rparr>)
              | (Some e, s1) \<Rightarrow> Some (c\<lparr>shared := s1, wpcs := (wpcs c)[w := W_crashed e]\<rparr>))
         | W_del_idle \<Rightarrow>
             (case del_idle w s of
                (True, s1) \<Rightarrow> Some (c\<lparr>shared := s1, wpcs := (wpcs c)[w := W_exited]\<rparr>)
              | (False, s1) \<Rightarrow> Some (c\<lparr>shared := s1, wpcs := (wpcs c)[w := W_acquire]\<rparr>))
         | W_exited \<Rightarrow> None
         | W_crashed e \<Rightarrow> None))"

text \<open>The next statement of worker thread \<open>w\<close> when standard error takes what is written.\<close>

definition worker_step :: "wid \<Rightarrow> 'v config \<Rightarrow> 'v config option" where
  "worker_step w c = worker_next Report_written w c"

text \<open>
  The wait of line 80 ends by timeout: the thread has been blocked for \<open>IDLE_TIMEOUT\<close>
  seconds and the lock is still held, so \<open>acquire\<close> returns \<open>False\<close> and the thread goes
  to line 88.
\<close>

definition timeout_step :: "wid \<Rightarrow> 'v config \<Rightarrow> 'v config option" where
  "timeout_step w c =
     (if length (wpcs c) \<le> w then None
      else
        (case wpcs c ! w of
           W_acquire \<Rightarrow>
             (if fst (lock_try (worker_lock (workers (shared c) ! w))) then None
              else Some (c\<lparr>wpcs := (wpcs c)[w := W_del_idle]\<rparr>))
         | _ \<Rightarrow> None))"

text \<open>
  The next statement of the \<open>k\<close>-th call of \<open>start_thread_soon\<close>, where \<open>start_error\<close>
  is what \<open>thread.start()\<close> does if the statement constructs a worker. A thread started
  by the statement (line 59) begins \<open>_work\<close> at line 80. A call that has returned or
  raised has no next statement.
\<close>

definition caller_next :: "exn option \<Rightarrow> nat \<Rightarrow> 'v config \<Rightarrow> 'v config option" where
  "caller_next start_error k c =
     (if length (cpcs c) \<le> k then None
      else
        (let s = shared c in
         case cpcs c ! k of
           C_pop fn deliver \<Rightarrow>
             (case pop_or_spawn start_error s of
                (Inl e, s1) \<Rightarrow> Some (c\<lparr>shared := s1, cpcs := (cpcs c)[k := C_raised e]\<rparr>)
              | (Inr worker, s1) \<Rightarrow>
                  Some (c\<lparr>shared := s1,
                          wpcs := wpcs c @
                            replicate (length (workers s1) - length (workers s)) W_acquire,
                          cpcs := (cpcs c)[k := C_set_job worker fn deliver]\<rparr>))
         | C_set_job worker fn deliver \<Rightarrow>
             Some (c\<lparr>shared := set_job worker fn deliver s,
                     cpcs := (cpcs c)[k := C_release worker]\<rparr>)
         | C_release worker \<Rightarrow>
             (case release worker s of
                Inl e \<Rightarrow> Some (c\<lparr>cpcs := (cpcs c)[k := C_raised e]\<rparr>)
              | Inr s1 \<Rightarrow> Some (c\<lparr>shared := s1, cpcs := (cpcs c)[k := C_returned]\<rparr>))
         | C_returned \<Rightarrow> None
         | C_raised e \<Rightarrow> None))"

text \<open>The next statement of the \<open>k\<close>-th call when every thread can be started.\<close>

definition caller_step :: "nat \<Rightarrow> 'v config \<Rightarrow> 'v config option" where
  "caller_step k c = caller_next None k c"

text \<open>
  The two statements that ask something of the surroundings. The \<open>k\<close>-th call is
  \<open>spawning\<close> when its next statement finds the registry empty and constructs a
  worker. Worker \<open>w\<close> is \<open>reporting\<close> when its next statement calls a \<open>deliver\<close> that
  raises, and so writes to standard error.
\<close>

definition spawning :: "nat \<Rightarrow> 'v config \<Rightarrow> bool" where
  "spawning k c =
     (k < length (cpcs c) \<and>
      (case cpcs c ! k of
         C_pop fn deliver \<Rightarrow> idle_workers (shared c) = []
       | _ \<Rightarrow> False))"

definition reporting :: "wid \<Rightarrow> 'v config \<Rightarrow> bool" where
  "reporting w c =
     (w < length (wpcs c) \<and>
      (case wpcs c ! w of
         W_deliver fn deliver result \<Rightarrow>
           (case deliver result of Inl e \<Rightarrow> True | Inr u \<Rightarrow> False)
       | _ \<Rightarrow> False))"

text \<open>
  What can happen next: a thread calls \<open>start_thread_soon\<close>; a call or a worker thread
  executes its next statement, with a thread started and the report written where the
  statement asks for it; the wait of a worker times out; the \<open>k\<close>-th call constructs a
  worker and \<open>thread.start()\<close> raises \<open>e\<close>; worker \<open>w\<close> reports a failed \<open>deliver\<close>
  and a write to standard error raises.
\<close>

datatype 'v action =
    Call "'v fn" "'v deliver"
  | Caller nat
  | Worker wid
  | Timeout wid
  | Start_fails nat exn
  | Report_fails wid report

fun step :: "'v action \<Rightarrow> 'v config \<Rightarrow> 'v config option" where
  "step (Call fn deliver) c = Some (c\<lparr>cpcs := cpcs c @ [C_pop fn deliver]\<rparr>)"
| "step (Caller k) c = caller_step k c"
| "step (Worker w) c = worker_step w c"
| "step (Timeout w) c = timeout_step w c"
| "step (Start_fails k e) c = (if spawning k c then caller_next (Some e) k c else None)"
| "step (Report_fails w rep) c =
     (if reporting w c \<and> rep \<noteq> Report_written then worker_next rep w c else None)"


fun run :: "'v action list \<Rightarrow> 'v config \<Rightarrow> 'v config option" where
  "run [] c = Some c"
| "run (a # as) c = (case step a c of None \<Rightarrow> None | Some c' \<Rightarrow> run as c')"

subsection \<open>The order of a worker's own events\<close>

text \<open>
  The events that a worker thread writes itself, as opposed to those written by the
  threads that call \<open>start_thread_soon\<close>.
\<close>

fun by_worker :: "'v event \<Rightarrow> wid option" where
  "by_worker (Ev_ran w fn deliver r) = Some w"
| "by_worker (Ev_registered w) = Some w"
| "by_worker (Ev_deliver_called w fn deliver r) = Some w"
| "by_worker (Ev_unregistered w) = Some w"
| "by_worker (Ev_spawned w) = None"
| "by_worker (Ev_popped w) = None"
| "by_worker (Ev_job_set w) = None"
| "by_worker (Ev_released w) = None"

definition own_events :: "wid \<Rightarrow> 'v event list \<Rightarrow> 'v event list" where
  "own_events w tr = filter (\<lambda>e. by_worker e = Some w) tr"

text \<open>
  Where a worker stands according to the events it has written: between two jobs, after
  the \<open>fn\<close> of a job has run with a result, after it has registered as idle with that job
  and result in hand, or gone after removing itself. \<open>Wrong\<close> is entered by an event that is out of
  this order, and is never left.
\<close>

datatype 'v phase =
    Between
  | Ran "'v fn" "'v deliver" "'v outcome"
  | Registered "'v fn" "'v deliver" "'v outcome"
  | Gone
  | Wrong

fun next_phase :: "'v phase \<Rightarrow> 'v event \<Rightarrow> 'v phase" where
  "next_phase Between (Ev_ran w fn deliver r) = Ran fn deliver r"
| "next_phase (Ran fn deliver r) (Ev_registered w) = Registered fn deliver r"
| "next_phase (Registered fn deliver r) (Ev_deliver_called w fn' deliver' r') =
     (if fn = fn' \<and> deliver = deliver' \<and> r = r' then Between else Wrong)"
| "next_phase Between (Ev_unregistered w) = Gone"
| "next_phase _ _ = Wrong"

definition phase_of :: "wid \<Rightarrow> 'v event list \<Rightarrow> 'v phase" where
  "phase_of w tr = foldl next_phase Between (own_events w tr)"

text \<open>The phase that belongs to each control point of \<open>_work\<close> and \<open>_handle_job\<close>.\<close>

fun pc_phase :: "'v wpc \<Rightarrow> 'v phase" where
  "pc_phase (W_register fn deliver result) = Ran fn deliver result"
| "pc_phase (W_deliver fn deliver result) = Registered fn deliver result"
| "pc_phase W_exited = Gone"
| "pc_phase _ = Between"

definition in_phase :: "'v config \<Rightarrow> bool" where
  "in_phase c =
     (\<forall>w. phase_of w (trace (shared c)) =
            (if w < length (wpcs c) then pc_phase (wpcs c ! w) else Between))"

subsection \<open>What holds of every worker in every run\<close>

text \<open>
  A call of \<open>start_thread_soon\<close> that has chosen worker \<open>w\<close> is about to write the job
  slot of \<open>w\<close> (\<open>setting\<close>) or about to release the lock of \<open>w\<close> (\<open>releasing\<close>). A
  worker thread is \<open>parked\<close> when it is not in the middle of a job: it waits at line 80,
  has timed out and is at line 88, is calling \<open>deliver\<close> after registering, or has died
  there of an exception raised by a write to standard error.
\<close>

fun setting :: "wid \<Rightarrow> 'v cpc \<Rightarrow> bool" where
  "setting w (C_set_job worker fn deliver) = (worker = w)"
| "setting w _ = False"

fun releasing :: "wid \<Rightarrow> 'v cpc \<Rightarrow> bool" where
  "releasing w (C_release worker) = (worker = w)"
| "releasing w _ = False"

fun parked :: "'v wpc \<Rightarrow> bool" where
  "parked W_acquire = True"
| "parked W_del_idle = True"
| "parked (W_deliver fn deliver result) = True"
| "parked (W_crashed e) = True"
| "parked _ = False"

text \<open>
  The states a worker can be in, by whether it is in the idle registry (\<open>idle\<close>), whether
  its job slot is filled (\<open>has_job\<close>), its lock \<open>l\<close>, its control point \<open>pc\<close>, and the
  numbers \<open>a\<close> and \<open>b\<close> of calls that are setting and releasing it:
  idle in the registry; chosen by one call, before and after the job is written; released
  with the job in the slot; at work on a job; or exited.
\<close>

definition ok :: "bool \<Rightarrow> bool \<Rightarrow> lock \<Rightarrow> 'v wpc \<Rightarrow> nat \<Rightarrow> nat \<Rightarrow> bool" where
  "ok idle has_job l pc a b =
     (if idle then a = 0 \<and> b = 0 \<and> l = Locked \<and> \<not> has_job \<and> parked pc
      else if a = 1 \<and> b = 0 then l = Locked \<and> \<not> has_job \<and> parked pc
      else if a = 0 \<and> b = 1 then l = Locked \<and> has_job \<and> parked pc
      else a = 0 \<and> b = 0 \<and>
        (case pc of
           W_take_job \<Rightarrow> l = Locked \<and> has_job
         | W_capture fn deliver \<Rightarrow> l = Locked \<and> \<not> has_job
         | W_register fn deliver result \<Rightarrow> l = Locked \<and> \<not> has_job
         | W_exited \<Rightarrow> l = Locked \<and> \<not> has_job
         | _ \<Rightarrow> l = Unlocked \<and> has_job))"

definition worker_ok :: "'v config \<Rightarrow> wid \<Rightarrow> bool" where
  "worker_ok c w =
     ok (w \<in> set (idle_workers (shared c)))
        (job (workers (shared c) ! w) \<noteq> None)
        (worker_lock (workers (shared c) ! w))
        (wpcs c ! w)
        (length (filter (setting w) (cpcs c)))
        (length (filter (releasing w) (cpcs c)))"

fun call_ok :: "nat \<Rightarrow> 'v cpc \<Rightarrow> bool" where
  "call_ok n (C_set_job worker fn deliver) = (worker < n)"
| "call_ok n (C_release worker) = (worker < n)"
| "call_ok n _ = True"

definition safe :: "'v config \<Rightarrow> bool" where
  "safe c =
     (length (wpcs c) = length (workers (shared c)) \<and>
      distinct (idle_workers (shared c)) \<and>
      list_all (\<lambda>w. w < length (workers (shared c))) (idle_workers (shared c)) \<and>
      list_all (call_ok (length (workers (shared c)))) (cpcs c) \<and>
      list_all (worker_ok c) [0..<length (workers (shared c))])"

text \<open>
  A job is on its way to worker \<open>w\<close>: one call of \<open>start_thread_soon\<close> has chosen \<open>w\<close>
  and is about to write its job slot or to release its lock, or the job is in the slot
  and the lock has been released.
\<close>

definition job_coming :: "'v config \<Rightarrow> wid \<Rightarrow> bool" where
  "job_coming c w =
     (length (filter (setting w) (cpcs c)) + length (filter (releasing w) (cpcs c)) = 1 \<or>
      job (workers (shared c) ! w) \<noteq> None \<and> worker_lock (workers (shared c) ! w) = Unlocked)"

subsection \<open>Accounting for the jobs\<close>














text \<open>No worker thread has died of an exception.\<close>

fun crashed :: "'v wpc \<Rightarrow> bool" where
  "crashed (W_crashed e) = True"
| "crashed _ = False"









section \<open>The kqueue entry points: \<open>trio/_core/_generated_io_kqueue.py\<close>\<close>

text \<open>
  \<open>GLOBAL_RUN_CONTEXT\<close> is the thread-local object of \<open>_run.py\<close>, which is not among the
  sources. Its attribute \<open>runner\<close> exists only while a run is active on the thread, and
  reading a missing attribute raises \<open>AttributeError\<close>. The methods of the runner's
  \<open>io_manager\<close> are not among the sources either: they are the fields of a record, so
  every statement below holds for any methods. \<open>'a\<close> is the type of the arguments and
  \<open>'r\<close> of the results.
\<close>

record ('a, 'r) io_manager =
  io_current_kqueue :: "exn + 'r"
  io_monitor_kevent :: "'a \<Rightarrow> 'a \<Rightarrow> exn + 'r"
  io_wait_kevent :: "'a \<Rightarrow> 'a \<Rightarrow> 'a \<Rightarrow> exn + 'r"
  io_wait_readable :: "'a \<Rightarrow> exn + 'r"
  io_wait_writable :: "'a \<Rightarrow> exn + 'r"
  io_notify_closing :: "'a \<Rightarrow> exn + 'r"

record ('a, 'r) runner =
  io_manager :: "('a, 'r) io_manager"

record ('a, 'r) run_context =
  runner :: "('a, 'r) runner option"

definition get_runner :: "('a, 'r) run_context \<Rightarrow> exn + ('a, 'r) runner" where
  "get_runner ctx =
     (case runner ctx of
        None \<Rightarrow> Inl (AttributeError ''runner'')
      | Some r \<Rightarrow> Inr r)"

text \<open>
  The \<open>except AttributeError\<close> clause that each of the six functions has around its
  \<open>return\<close>: an \<open>AttributeError\<close> from anywhere in the \<open>try\<close> block becomes the
  \<open>RuntimeError\<close>; every other exception and every value passes.
\<close>

definition except_AttributeError :: "exn + 'r \<Rightarrow> exn + 'r" where
  "except_AttributeError body =
     (case body of
        Inl (AttributeError _) \<Rightarrow> Inl (RuntimeError ''must be called from async context'')
      | Inl e \<Rightarrow> Inl e
      | Inr v \<Rightarrow> Inr v)"

text \<open>
  The first statement of each function, \<open>locals()[LOCALS_KEY_KI_PROTECTION_ENABLED] = True\<close>,
  marks the frame for the keyboard-interrupt machinery and changes no result. The three
  \<open>async\<close> functions are modelled by what awaiting them gives.
\<close>

definition current_kqueue :: "('a, 'r) run_context \<Rightarrow> exn + 'r" where
  "current_kqueue ctx =
     except_AttributeError
       (case get_runner ctx of
          Inl e \<Rightarrow> Inl e
        | Inr r \<Rightarrow> io_current_kqueue (io_manager r))"

definition monitor_kevent :: "('a, 'r) run_context \<Rightarrow> 'a \<Rightarrow> 'a \<Rightarrow> exn + 'r" where
  "monitor_kevent ctx ident filter' =
     except_AttributeError
       (case get_runner ctx of
          Inl e \<Rightarrow> Inl e
        | Inr r \<Rightarrow> io_monitor_kevent (io_manager r) ident filter')"

definition wait_kevent :: "('a, 'r) run_context \<Rightarrow> 'a \<Rightarrow> 'a \<Rightarrow> 'a \<Rightarrow> exn + 'r" where
  "wait_kevent ctx ident filter' abort_func =
     except_AttributeError
       (case get_runner ctx of
          Inl e \<Rightarrow> Inl e
        | Inr r \<Rightarrow> io_wait_kevent (io_manager r) ident filter' abort_func)"

definition wait_readable :: "('a, 'r) run_context \<Rightarrow> 'a \<Rightarrow> exn + 'r" where
  "wait_readable ctx fd =
     except_AttributeError
       (case get_runner ctx of
          Inl e \<Rightarrow> Inl e
        | Inr r \<Rightarrow> io_wait_readable (io_manager r) fd)"

definition wait_writable :: "('a, 'r) run_context \<Rightarrow> 'a \<Rightarrow> exn + 'r" where
  "wait_writable ctx fd =
     except_AttributeError
       (case get_runner ctx of
          Inl e \<Rightarrow> Inl e
        | Inr r \<Rightarrow> io_wait_writable (io_manager r) fd)"

definition notify_closing :: "('a, 'r) run_context \<Rightarrow> 'a \<Rightarrow> exn + 'r" where
  "notify_closing ctx fd =
     except_AttributeError
       (case get_runner ctx of
          Inl e \<Rightarrow> Inl e
        | Inr r \<Rightarrow> io_notify_closing (io_manager r) fd)"

section \<open>The sequencer: \<open>trio/testing/_sequencer.py\<close>\<close>

text \<open>
  \<open>_sequence_points\<close> is a \<open>defaultdict(Event)\<close>: the map holds the events created so
  far, \<open>True\<close> for an event that is set, and reading a missing key creates an unset
  event. \<open>_claimed\<close> is a set of positions and \<open>_broken\<close> a flag.
\<close>

record sequencer =
  sequence_points :: "int \<rightharpoonup> bool"
  claimed :: "int set"
  broken :: bool

definition Sequencer_init :: sequencer where
  "Sequencer_init = \<lparr>sequence_points = Map.empty, claimed = {}, broken = False\<rparr>"

definition point :: "int \<Rightarrow> sequencer \<Rightarrow> bool \<times> sequencer" where
  "point k s =
     (case sequence_points s k of
        Some e \<Rightarrow> (e, s)
      | None \<Rightarrow> (False, s\<lparr>sequence_points := (sequence_points s)(k \<mapsto> False)\<rparr>))"

text \<open>
  \<open>__call__\<close> is an async context manager, so its body runs in three parts. Where the
  task stands after a part: it raised, it is suspended in \<open>wait()\<close> at line 70, or it is
  at the \<open>yield\<close> of line 80 and the guarded block runs.
\<close>

datatype progress = Raised exn | Waiting | Running

text \<open>Lines 63 to 70, up to the \<open>await\<close>.\<close>

definition enter :: "int \<Rightarrow> sequencer \<Rightarrow> progress \<times> sequencer" where
  "enter position s =
     (if position \<in> claimed s then
        (Raised (RuntimeError (''Attempted to re-use sequence point '' @ str_int position)), s)
      else if broken s then (Raised (RuntimeError ''sequence broken!''), s)
      else
        (let s1 = s\<lparr>claimed := insert position (claimed s)\<rparr>
         in if position \<noteq> 0 then (Waiting, snd (point position s1)) else (Running, s1)))"

text \<open>
  Lines 70 to 78: the \<open>await\<close> of a task suspended at position \<open>position\<close> ends, either
  because the task was cancelled or because the event is set. While the event is unset
  and the task is not cancelled, the task stays suspended.
\<close>

definition wake :: "int \<Rightarrow> bool \<Rightarrow> sequencer \<Rightarrow> progress \<times> sequencer" where
  "wake position cancelled s =
     (if cancelled then
        (Raised (RuntimeError ''Sequencer wait cancelled -- sequence broken''),
         s\<lparr>broken := True, sequence_points := map_option (\<lambda>_. True) \<circ> sequence_points s\<rparr>)
      else if \<not> fst (point position s) then (Waiting, snd (point position s))
      else if broken s then (Raised (RuntimeError ''sequence broken!''), s)
      else (Running, s))"

text \<open>Line 82, after the guarded block: the event of the next position is set.\<close>

definition leave :: "int \<Rightarrow> sequencer \<Rightarrow> sequencer" where
  "leave position s =
     (let s1 = snd (point (position + 1) s)
      in s1\<lparr>sequence_points := (sequence_points s1)(position + 1 \<mapsto> True)\<rparr>)"

text \<open>Any sequence of these parts, by any tasks, on one \<open>Sequencer\<close>.\<close>

datatype seq_op = Enter int | Wake int bool | Leave int

fun seq_apply :: "seq_op \<Rightarrow> sequencer \<Rightarrow> sequencer" where
  "seq_apply (Enter position) s = snd (enter position s)"
| "seq_apply (Wake position cancelled) s = snd (wake position cancelled s)"
| "seq_apply (Leave position) s = leave position s"

fun seq_run :: "seq_op list \<Rightarrow> sequencer \<Rightarrow> sequencer" where
  "seq_run [] s = s"
| "seq_run (x # xs) s = seq_run xs (seq_apply x s)"

section \<open>Sample jobs\<close>

text \<open>Callables used as concrete inputs in the examples below.\<close>

definition returns_seven :: "int fn" where
  "returns_seven u = Inr 7"

definition raises_value_error :: "int fn" where
  "raises_value_error u = Inl (ValueError ''bad input'')"

definition deliver_ok :: "int deliver" where
  "deliver_ok r = Inr ()"

definition deliver_raises :: "int deliver" where
  "deliver_raises r = Inl (OtherError ''BrokenPipeError'' ''pipe closed'')"

text \<open>
  The exception of \<open>thread.start()\<close> when the operating system gives no thread, and the
  exception of a write to a standard error that has been closed.
\<close>

definition no_thread :: exn where
  "no_thread = RuntimeError ''can't start new thread''"

definition stderr_closed :: exn where
  "stderr_closed = ValueError ''I/O operation on closed file.''"

text \<open>
  The state after one job has been submitted to a new cache and handled completely by
  worker 0, which now sits idle in the registry; and that state with the thread of
  worker 0 blocked at line 80.
\<close>

definition idle_state :: "int shared" where
  "idle_state =
     \<lparr>idle_workers = [0],
      workers = [\<lparr>job = None, worker_lock = Locked,
                  thread = \<lparr>daemon = True, name = ''Trio worker thread 0'', started = True\<rparr>\<rparr>],
      name_counter = 1,
      stderr = [],
      trace = [Ev_spawned 0, Ev_job_set 0, Ev_released 0, Ev_ran 0 returns_seven deliver_ok (Value 7),
               Ev_registered 0, Ev_deliver_called 0 returns_seven deliver_ok (Value 7)]\<rparr>"

definition idle_config :: "int config" where
  "idle_config = \<lparr>shared = idle_state, wpcs = [W_acquire], cpcs = [C_returned]\<rparr>"

text \<open>
  The state after \<open>start_thread_soon\<close> on a new cache, with a job that is still in the
  slot of worker 0: one whose \<open>deliver\<close> raises, and one whose \<open>fn\<close> raises.
\<close>

definition pending_state :: "int shared" where
  "pending_state =
     \<lparr>idle_workers = [],
      workers = [\<lparr>job = Some (returns_seven, deliver_raises), worker_lock = Unlocked,
                  thread = \<lparr>daemon = True, name = ''Trio worker thread 0'', started = True\<rparr>\<rparr>],
      name_counter = 1,
      stderr = [],
      trace = [Ev_spawned 0, Ev_job_set 0, Ev_released 0]\<rparr>"

definition failing_state :: "int shared" where
  "failing_state =
     \<lparr>idle_workers = [],
      workers = [\<lparr>job = Some (raises_value_error, deliver_ok), worker_lock = Unlocked,
                  thread = \<lparr>daemon = True, name = ''Trio worker thread 0'', started = True\<rparr>\<rparr>],
      name_counter = 1,
      stderr = [],
      trace = [Ev_spawned 0, Ev_job_set 0, Ev_released 0]\<rparr>"

text \<open>A thread on which no run is active; arguments and results are integers.\<close>

definition no_run :: "(int, int) run_context" where
  "no_run = \<lparr>runner = None\<rparr>"

text \<open>
  A schedule of two calls of \<open>start_thread_soon\<close> and one worker: the first call runs to
  its end; worker 0 takes the job, runs \<open>fn\<close> and registers as idle; the second call
  begins and pops worker 0 from the registry. The next statement of worker 0 is the call
  of \<open>deliver\<close> for the first job.
\<close>

definition race_schedule :: "int action list" where
  "race_schedule =
     [Call returns_seven deliver_ok, Caller 0, Caller 0, Caller 0,
      Worker 0, Worker 0, Worker 0, Worker 0,
      Call returns_seven deliver_ok, Caller 1]"

text \<open>
  The first seven steps of that schedule: the next statement of worker 0 is line 71.
\<close>

definition register_schedule :: "int action list" where
  "register_schedule = take 7 race_schedule"

text \<open>
  Three more schedules. In \<open>idle_schedule\<close> one job is submitted and handled to the end,
  and worker 0 is back at line 80. In \<open>timeout_schedule\<close> its wait then times out. In
  \<open>timeout_race_schedule\<close> a second call pops worker 0 after the timeout and before the
  worker reaches line 88.
\<close>

definition idle_schedule :: "int action list" where
  "idle_schedule =
     [Call returns_seven deliver_ok, Caller 0, Caller 0, Caller 0,
      Worker 0, Worker 0, Worker 0, Worker 0, Worker 0]"

definition timeout_schedule :: "int action list" where
  "timeout_schedule = idle_schedule @ [Timeout 0]"

definition timeout_race_schedule :: "int action list" where
  "timeout_race_schedule =
     idle_schedule @ [Timeout 0, Call raises_value_error deliver_ok, Caller 1]"

text \<open>
  One call of \<open>start_thread_soon\<close> on a new cache: with a \<open>deliver\<close> that raises, and
  with an \<open>fn\<close> that raises.
\<close>

definition pending_schedule :: "int action list" where
  "pending_schedule = [Call returns_seven deliver_raises, Caller 0, Caller 0, Caller 0]"

definition failing_schedule :: "int action list" where
  "failing_schedule = [Call raises_value_error deliver_ok, Caller 0, Caller 0, Caller 0]"

text \<open>
  The job whose \<open>deliver\<close> raises is handled by worker 0 while standard error is
  closed: the \<open>print\<close> of line 75 raises, which leaves the state \<open>dead_state\<close>. In
  \<open>lost_schedule\<close> a second job is submitted after that, and its call runs to its end.
\<close>

definition dead_state :: "int shared" where
  "dead_state =
     \<lparr>idle_workers = [0],
      workers = [\<lparr>job = None, worker_lock = Locked,
                  thread = \<lparr>daemon = True, name = ''Trio worker thread 0'', started = True\<rparr>\<rparr>],
      name_counter = 1,
      stderr = [],
      trace = [Ev_spawned 0, Ev_job_set 0, Ev_released 0,
               Ev_ran 0 returns_seven deliver_raises (Value 7), Ev_registered 0,
               Ev_deliver_called 0 returns_seven deliver_raises (Value 7)]\<rparr>"

definition dead_schedule :: "int action list" where
  "dead_schedule =
     pending_schedule @
     [Worker 0, Worker 0, Worker 0, Worker 0, Report_fails 0 (Print_raises stderr_closed)]"

definition lost_schedule :: "int action list" where
  "lost_schedule =
     dead_schedule @ [Call returns_seven deliver_ok, Caller 1, Caller 1, Caller 1]"

text \<open>The state that \<open>lost_schedule\<close> leads to.\<close>

definition lost_config :: "int config" where
  "lost_config =
     \<lparr>shared =
        \<lparr>idle_workers = [],
         workers = [\<lparr>job = Some (returns_seven, deliver_ok), worker_lock = Unlocked,
                     thread = \<lparr>daemon = True, name = ''Trio worker thread 0'',
                                started = True\<rparr>\<rparr>],
         name_counter = 1,
         stderr = [],
         trace = [Ev_spawned 0, Ev_job_set 0, Ev_released 0,
                  Ev_ran 0 returns_seven deliver_raises (Value 7), Ev_registered 0,
                  Ev_deliver_called 0 returns_seven deliver_raises (Value 7),
                  Ev_popped 0, Ev_job_set 0, Ev_released 0]\<rparr>,
      wpcs = [W_crashed stderr_closed],
      cpcs = [C_returned, C_returned]\<rparr>"

text \<open>A first call on a new cache while the operating system gives no thread.\<close>

definition refused_schedule :: "int action list" where
  "refused_schedule = [Call returns_seven deliver_ok, Start_fails 0 no_thread]"

section \<open>Facts about the statements\<close>

lemmas dict_defs = dict_setitem_def dict_delitem_def dict_popitem_def

lemmas lock_defs = Lock_def lock_try_def lock_release_def

lemma lock_worker_simps:
  "trace (lock_worker w s) = trace s"
  "stderr (lock_worker w s) = stderr s"
  "idle_workers (lock_worker w s) = idle_workers s"
  "length (workers (lock_worker w s)) = length (workers s)"
  "w < length (workers s) \<Longrightarrow> job (workers (lock_worker w s) ! w) = job (workers s ! w)"
  "w < length (workers s) \<Longrightarrow> worker_lock (workers (lock_worker w s) ! w) = Locked"
  by (simp_all add: lock_worker_def)

lemma call_deliver_simps:
  "trace (snd (call_deliver self fn deliver r rep s)) =
     trace s @ [Ev_deliver_called self fn deliver r]"
  "stderr (snd (call_deliver self fn deliver r Report_written s)) =
     (case deliver r of
        Inr _ \<Rightarrow> stderr s
      | Inl e \<Rightarrow> stderr s @ [Line ''Exception while delivering result of thread'', Traceback e])"
  "idle_workers (snd (call_deliver self fn deliver r rep s)) = idle_workers s"
  "workers (snd (call_deliver self fn deliver r rep s)) = workers s"
  "name_counter (snd (call_deliver self fn deliver r rep s)) = name_counter s"
  "fst (call_deliver self fn deliver r Report_written s) = None"
  by (simp_all add: call_deliver_def emit_def Let_def split: sum.splits report.splits)

lemma call_deliver_fst:
  "fst (call_deliver self fn deliver r rep s) =
     (case deliver r of
        Inr _ \<Rightarrow> None
      | Inl e \<Rightarrow>
          (case rep of
             Report_written \<Rightarrow> None
           | Print_raises e' \<Rightarrow> Some e'
           | Print_exception_raises e' \<Rightarrow> Some e'))"
  by (simp add: call_deliver_def Let_def split: sum.splits report.splits)

lemma call_deliver_returns:
  "(case call_deliver self fn deliver r Report_written s of
      (None, s1) \<Rightarrow> f s1
    | (Some e, s1) \<Rightarrow> g e s1) =
   f (snd (call_deliver self fn deliver r Report_written s))"
  by (simp add: call_deliver_def Let_def split: sum.splits)

lemma register_idle_simps:
  "trace (register_idle self s) = trace s @ [Ev_registered self]"
  "stderr (register_idle self s) = stderr s"
  "idle_workers (register_idle self s) = dict_setitem (idle_workers s) self"
  "workers (register_idle self s) = workers s"
  by (simp_all add: register_idle_def emit_def)

lemma handle_job_Some:
  "job (workers s ! self) = Some (fn, deliver) \<Longrightarrow>
   handle_job self rep s =
     call_deliver self fn deliver (capture fn) rep
       (register_idle self
          (emit (Ev_ran self fn deliver (capture fn))
             (s\<lparr>workers := (workers s)[self := (workers s ! self)\<lparr>job := None\<rparr>]\<rparr>)))"
  by (simp add: handle_job_def take_job_def run_fn_def Let_def)

lemma handle_job_None:
  "job (workers s ! self) = None \<Longrightarrow>
   handle_job self rep s = (Some (TypeError ''cannot unpack non-iterable NoneType object''), s)"
  by (simp add: handle_job_def take_job_def)

lemma del_idle_absent: "self \<notin> set (idle_workers s) \<Longrightarrow> del_idle self s = (False, s)"
  by (simp add: del_idle_def dict_defs)

lemma del_idle_present:
  "self \<in> set (idle_workers s) \<Longrightarrow>
   del_idle self s =
     (True, emit (Ev_unregistered self) (s\<lparr>idle_workers := removeAll self (idle_workers s)\<rparr>))"
  by (simp add: del_idle_def dict_defs)

lemma timeout_step_locked:
  "w < length (wpcs c) \<Longrightarrow> wpcs c ! w = W_acquire \<Longrightarrow>
   worker_lock (workers (shared c) ! w) = Locked \<Longrightarrow>
   timeout_step w c = Some (c\<lparr>wpcs := (wpcs c)[w := W_del_idle]\<rparr>)"
  by (simp add: timeout_step_def lock_defs)

lemma del_step_present:
  assumes "w < length (wpcs c)" and "wpcs c ! w = W_del_idle"
    and "w \<in> set (idle_workers (shared c))"
  shows "\<exists>c2. worker_step w c = Some c2 \<and> wpcs c2 ! w = W_exited \<and>
           idle_workers (shared c2) = removeAll w (idle_workers (shared c)) \<and>
           worker_step w c2 = None \<and> timeout_step w c2 = None"
  using assms
  by (simp add: del_idle_present worker_step_def worker_next_def timeout_step_def emit_def)

lemma del_step_absent:
  assumes "w < length (wpcs c)" and "wpcs c ! w = W_del_idle"
    and "w \<notin> set (idle_workers (shared c))"
  shows "\<exists>c2. worker_step w c = Some c2 \<and> wpcs c2 ! w = W_acquire \<and> shared c2 = shared c"
  using assms
  by (simp add: del_idle_absent worker_step_def worker_next_def)

lemma pop_or_spawn_empty:
  "idle_workers s = [] \<Longrightarrow> pop_or_spawn start_error s = WorkerThread_init start_error s"
  by (simp add: pop_or_spawn_def dict_defs)

lemma pop_or_spawn_nonempty:
  "idle_workers s \<noteq> [] \<Longrightarrow>
   pop_or_spawn start_error s =
     (Inr (last (idle_workers s)),
      emit (Ev_popped (last (idle_workers s))) (s\<lparr>idle_workers := butlast (idle_workers s)\<rparr>))"
  by (simp add: pop_or_spawn_def dict_defs)

lemma WorkerThread_init_simps:
  "WorkerThread_init None s =
     (Inr (length (workers s)),
      emit (Ev_spawned (length (workers s)))
        (s\<lparr>name_counter := Suc (name_counter s),
           workers := workers s @
             [\<lparr>job = None, worker_lock = Locked,
               thread = \<lparr>daemon = True,
                         name = ''Trio worker thread '' @ str_nat (name_counter s),
                         started = True\<rparr>\<rparr>]\<rparr>))"
  "WorkerThread_init (Some e) s = (Inl e, s\<lparr>name_counter := Suc (name_counter s)\<rparr>)"
  by (simp_all add: WorkerThread_init_def Let_def lock_defs)

lemma set_job_simps:
  "trace (set_job w fn deliver s) = trace s @ [Ev_job_set w]"
  "stderr (set_job w fn deliver s) = stderr s"
  "idle_workers (set_job w fn deliver s) = idle_workers s"
  "length (workers (set_job w fn deliver s)) = length (workers s)"
  "w < length (workers s) \<Longrightarrow> job (workers (set_job w fn deliver s) ! w) = Some (fn, deliver)"
  "w < length (workers s) \<Longrightarrow>
     worker_lock (workers (set_job w fn deliver s) ! w) = worker_lock (workers s ! w)"
  by (simp_all add: set_job_def emit_def)


lemma release_unlocked:
  "worker_lock (workers s ! w) = Unlocked \<Longrightarrow>
   release w s = Inl (RuntimeError ''release unlocked lock'')"
  by (simp add: release_def lock_defs)

lemma worker_step_simps:
  "length (wpcs c) \<le> w \<Longrightarrow> worker_step w c = None"
  "w < length (wpcs c) \<Longrightarrow> wpcs c ! w = W_acquire \<Longrightarrow>
   worker_step w c =
     (if worker_lock (workers (shared c) ! w) = Unlocked
      then Some (c\<lparr>shared := lock_worker w (shared c), wpcs := (wpcs c)[w := W_take_job]\<rparr>)
      else None)"
  "w < length (wpcs c) \<Longrightarrow> wpcs c ! w = W_take_job \<Longrightarrow>
   worker_step w c =
     (case job (workers (shared c) ! w) of
        None \<Rightarrow>
          Some (c\<lparr>wpcs := (wpcs c)
                  [w := W_crashed (TypeError ''cannot unpack non-iterable NoneType object'')]\<rparr>)
      | Some (fn, deliver) \<Rightarrow>
          Some (c\<lparr>shared := (shared c)\<lparr>workers :=
                    (workers (shared c))[w := (workers (shared c) ! w)\<lparr>job := None\<rparr>]\<rparr>,
                  wpcs := (wpcs c)[w := W_capture fn deliver]\<rparr>))"
  "w < length (wpcs c) \<Longrightarrow> wpcs c ! w = W_capture fn deliver \<Longrightarrow>
   worker_step w c =
     Some (c\<lparr>shared := emit (Ev_ran w fn deliver (capture fn)) (shared c),
             wpcs := (wpcs c)[w := W_register fn deliver (capture fn)]\<rparr>)"
  "w < length (wpcs c) \<Longrightarrow> wpcs c ! w = W_register fn deliver result \<Longrightarrow>
   worker_step w c =
     Some (c\<lparr>shared := register_idle w (shared c),
             wpcs := (wpcs c)[w := W_deliver fn deliver result]\<rparr>)"
  "w < length (wpcs c) \<Longrightarrow> wpcs c ! w = W_deliver fn deliver result \<Longrightarrow>
   worker_step w c =
     Some (c\<lparr>shared := snd (call_deliver w fn deliver result Report_written (shared c)),
             wpcs := (wpcs c)[w := W_acquire]\<rparr>)"
  "w < length (wpcs c) \<Longrightarrow> wpcs c ! w = W_del_idle \<Longrightarrow>
   worker_step w c =
     (if w \<in> set (idle_workers (shared c))
      then Some (c\<lparr>shared := emit (Ev_unregistered w)
                    ((shared c)\<lparr>idle_workers := removeAll w (idle_workers (shared c))\<rparr>),
                  wpcs := (wpcs c)[w := W_exited]\<rparr>)
      else Some (c\<lparr>shared := shared c, wpcs := (wpcs c)[w := W_acquire]\<rparr>))"
  "wpcs c ! w = W_exited \<Longrightarrow> worker_step w c = None"
  "wpcs c ! w = W_crashed e \<Longrightarrow> worker_step w c = None"
  by (auto simp: worker_step_def worker_next_def Let_def lock_defs take_job_def run_fn_def
      del_idle_present del_idle_absent call_deliver_returns
      split: lock.splits option.splits)

lemma report_fails_step:
  assumes "step (Report_fails w rep) c = Some c'"
  shows "\<exists>fn deliver result e e'.
     w < length (wpcs c) \<and> wpcs c ! w = W_deliver fn deliver result \<and>
     deliver result = Inl e \<and> (rep = Print_raises e' \<or> rep = Print_exception_raises e') \<and>
     c' = c\<lparr>shared := snd (call_deliver w fn deliver result rep (shared c)),
            wpcs := (wpcs c)[w := W_crashed e']\<rparr>"
proof -
  from assms have r: "reporting w c" and n: "rep \<noteq> Report_written"
    and s: "worker_next rep w c = Some c'"
    by (simp_all split: if_splits)
  from r have w: "w < length (wpcs c)"
    by (simp add: reporting_def)
  from r w obtain fn deliver result e
    where p: "wpcs c ! w = W_deliver fn deliver result" and d: "deliver result = Inl e"
    by (auto simp: reporting_def split: wpc.splits sum.splits)
  from n obtain e' where e': "rep = Print_raises e' \<or> rep = Print_exception_raises e'"
    by (cases rep) auto
  from s w p d e' have "c' = c\<lparr>shared := snd (call_deliver w fn deliver result rep (shared c)),
      wpcs := (wpcs c)[w := W_crashed e']\<rparr>"
    by (auto simp: worker_next_def call_deliver_def Let_def)
  with w p d e' show ?thesis
    by blast
qed

lemma timeout_step_simps:
  "length (wpcs c) \<le> w \<Longrightarrow> timeout_step w c = None"
  "w < length (wpcs c) \<Longrightarrow>
   timeout_step w c =
     (if wpcs c ! w = W_acquire \<and> worker_lock (workers (shared c) ! w) = Locked
      then Some (c\<lparr>wpcs := (wpcs c)[w := W_del_idle]\<rparr>)
      else None)"
  by (auto simp: timeout_step_def lock_defs split: lock.splits wpc.splits)

lemma caller_step_simps:
  "length (cpcs c) \<le> k \<Longrightarrow> caller_step k c = None"
  "k < length (cpcs c) \<Longrightarrow> cpcs c ! k = C_pop fn deliver \<Longrightarrow>
   caller_step k c =
     (if idle_workers (shared c) = []
      then Some (c\<lparr>shared := snd (WorkerThread_init None (shared c)),
                  wpcs := wpcs c @ [W_acquire],
                  cpcs := (cpcs c)[k := C_set_job (length (workers (shared c))) fn deliver]\<rparr>)
      else Some (c\<lparr>shared := emit (Ev_popped (last (idle_workers (shared c))))
                    ((shared c)\<lparr>idle_workers := butlast (idle_workers (shared c))\<rparr>),
                  wpcs := wpcs c,
                  cpcs := (cpcs c)
                    [k := C_set_job (last (idle_workers (shared c))) fn deliver]\<rparr>))"
  "k < length (cpcs c) \<Longrightarrow> cpcs c ! k = C_set_job worker fn deliver \<Longrightarrow>
   caller_step k c =
     Some (c\<lparr>shared := set_job worker fn deliver (shared c),
             cpcs := (cpcs c)[k := C_release worker]\<rparr>)"
  "k < length (cpcs c) \<Longrightarrow> cpcs c ! k = C_release worker \<Longrightarrow>
   caller_step k c =
     (if worker_lock (workers (shared c) ! worker) = Locked
      then Some (c\<lparr>shared := emit (Ev_released worker)
                    ((shared c)\<lparr>workers := (workers (shared c))
                       [worker := (workers (shared c) ! worker)\<lparr>worker_lock := Unlocked\<rparr>]\<rparr>),
                  cpcs := (cpcs c)[k := C_returned]\<rparr>)
      else Some (c\<lparr>cpcs := (cpcs c)[k := C_raised (RuntimeError ''release unlocked lock'')]\<rparr>))"
  "cpcs c ! k = C_returned \<Longrightarrow> caller_step k c = None"
  "cpcs c ! k = C_raised e \<Longrightarrow> caller_step k c = None"
  by (auto simp: caller_step_def caller_next_def Let_def pop_or_spawn_empty
      pop_or_spawn_nonempty WorkerThread_init_def emit_def release_def lock_defs
      split: lock.splits)

lemma start_fails_step:
  assumes "step (Start_fails k e) c = Some c'"
  shows "\<exists>fn deliver.
     k < length (cpcs c) \<and> cpcs c ! k = C_pop fn deliver \<and> idle_workers (shared c) = [] \<and>
     c' = c\<lparr>shared := (shared c)\<lparr>name_counter := Suc (name_counter (shared c))\<rparr>,
            cpcs := (cpcs c)[k := C_raised e]\<rparr>"
proof -
  from assms have r: "spawning k c" and s: "caller_next (Some e) k c = Some c'"
    by (simp_all split: if_splits)
  from r have k: "k < length (cpcs c)"
    by (simp add: spawning_def)
  from r k obtain fn deliver
    where p: "cpcs c ! k = C_pop fn deliver" and i: "idle_workers (shared c) = []"
    by (auto simp: spawning_def split: cpc.splits)
  from s k p i have "c' = c\<lparr>shared := (shared c)\<lparr>name_counter := Suc (name_counter (shared c))\<rparr>,
      cpcs := (cpcs c)[k := C_raised e]\<rparr>"
    by (auto simp: caller_next_def Let_def pop_or_spawn_empty WorkerThread_init_simps)
  with k p i show ?thesis
    by blast
qed

section \<open>Every run is safe\<close>

lemma count_update:
  "k < length xs \<Longrightarrow>
   length (filter P (xs[k := y])) + (if P (xs ! k) then 1 else 0) =
     length (filter P xs) + (if P y then 1 else 0)"
proof (induction xs arbitrary: k)
  case Nil
  then show ?case by simp
next
  case (Cons x xs)
  show ?case
  proof (cases k)
    case 0
    then show ?thesis by simp
  next
    case (Suc j)
    with Cons.prems have "j < length xs" by simp
    from Cons.IH [OF this] Suc show ?thesis by simp
  qed
qed

lemma count_update_same:
  "k < length xs \<Longrightarrow> P (xs ! k) = P y \<Longrightarrow>
   length (filter P (xs[k := y])) = length (filter P xs)"
  using count_update [of k xs P y] by (simp split: if_splits)

lemma count_update_gain:
  "k < length xs \<Longrightarrow> \<not> P (xs ! k) \<Longrightarrow> P y \<Longrightarrow>
   length (filter P (xs[k := y])) = Suc (length (filter P xs))"
  using count_update [of k xs P y] by simp

lemma count_update_loss:
  "k < length xs \<Longrightarrow> P (xs ! k) \<Longrightarrow> \<not> P y \<Longrightarrow>
   Suc (length (filter P (xs[k := y]))) = length (filter P xs)"
  using count_update [of k xs P y] by simp

lemma count_pos: "k < length xs \<Longrightarrow> P (xs ! k) \<Longrightarrow> 0 < length (filter P xs)"
  by (metis filter_empty_conv length_greater_0_conv nth_mem)

lemma safe_D:
  assumes "safe c"
  shows "length (wpcs c) = length (workers (shared c))"
    and "distinct (idle_workers (shared c))"
    and "w \<in> set (idle_workers (shared c)) \<Longrightarrow> w < length (workers (shared c))"
    and "k < length (cpcs c) \<Longrightarrow> call_ok (length (workers (shared c))) (cpcs c ! k)"
    and "w < length (workers (shared c)) \<Longrightarrow> worker_ok c w"
proof -
  from assms show "length (wpcs c) = length (workers (shared c))"
    and "distinct (idle_workers (shared c))"
    by (simp_all add: safe_def)
  from assms have "list_all (\<lambda>w. w < length (workers (shared c))) (idle_workers (shared c))"
    by (simp add: safe_def)
  then show "w \<in> set (idle_workers (shared c)) \<Longrightarrow> w < length (workers (shared c))"
    by (simp add: list_all_iff)
  from assms have "list_all (call_ok (length (workers (shared c)))) (cpcs c)"
    by (simp add: safe_def)
  then show "k < length (cpcs c) \<Longrightarrow> call_ok (length (workers (shared c))) (cpcs c ! k)"
    by (simp add: list_all_length)
  from assms have "list_all (worker_ok c) [0..<length (workers (shared c))]"
    by (simp add: safe_def)
  then show "w < length (workers (shared c)) \<Longrightarrow> worker_ok c w"
    by (simp add: list_all_iff)
qed

lemma safe_I:
  assumes "length (wpcs c) = length (workers (shared c))"
    and "distinct (idle_workers (shared c))"
    and "\<And>w. w \<in> set (idle_workers (shared c)) \<Longrightarrow> w < length (workers (shared c))"
    and "\<And>k. k < length (cpcs c) \<Longrightarrow> call_ok (length (workers (shared c))) (cpcs c ! k)"
    and "\<And>w. w < length (workers (shared c)) \<Longrightarrow> worker_ok c w"
  shows "safe c"
proof -
  have "list_all (\<lambda>w. w < length (workers (shared c))) (idle_workers (shared c))"
    using assms(3) by (simp add: list_all_iff)
  moreover have "list_all (call_ok (length (workers (shared c)))) (cpcs c)"
    using assms(4) by (simp add: list_all_length)
  moreover have "list_all (worker_ok c) [0..<length (workers (shared c))]"
    using assms(5) by (simp add: list_all_iff)
  ultimately show ?thesis
    using assms(1,2) by (simp add: safe_def)
qed

lemma safe_init: "safe init_config"
  by (simp add: safe_def init_config_def ThreadCache_init_def)

lemma call_ok_mono: "call_ok n p \<Longrightarrow> n \<le> m \<Longrightarrow> call_ok m p"
  by (cases p) simp_all

lemma safe_call:
  assumes "safe c"
  shows "safe (c\<lparr>cpcs := cpcs c @ [C_pop fn deliver]\<rparr>)"
proof (rule safe_I)
  fix w assume "w < length (workers (shared (c\<lparr>cpcs := cpcs c @ [C_pop fn deliver]\<rparr>)))"
  then have "worker_ok c w"
    using safe_D(5) [OF assms] by simp
  then show "worker_ok (c\<lparr>cpcs := cpcs c @ [C_pop fn deliver]\<rparr>) w"
    by (simp add: worker_ok_def)
next
  fix k assume "k < length (cpcs (c\<lparr>cpcs := cpcs c @ [C_pop fn deliver]\<rparr>))"
  then show "call_ok (length (workers (shared (c\<lparr>cpcs := cpcs c @ [C_pop fn deliver]\<rparr>))))
      (cpcs (c\<lparr>cpcs := cpcs c @ [C_pop fn deliver]\<rparr>) ! k)"
    using safe_D(4) [OF assms, of k] by (cases "k < length (cpcs c)") (simp_all add: nth_append)
qed (use safe_D [OF assms] in simp_all)

lemma safe_timeout:
  assumes "safe c" and "timeout_step w c = Some c'"
  shows "safe c'"
proof -
  from assms(2) have w: "w < length (wpcs c)"
    by (cases "w < length (wpcs c)") (simp_all add: timeout_step_simps)
  from assms(2) w have a: "wpcs c ! w = W_acquire"
    and c': "c' = c\<lparr>wpcs := (wpcs c)[w := W_del_idle]\<rparr>"
    by (auto simp: timeout_step_simps split: if_splits)
  show ?thesis
  proof (rule safe_I)
    fix v assume "v < length (workers (shared c'))"
    then have "worker_ok c v"
      using safe_D(5) [OF assms(1)] by (simp add: c')
    then show "worker_ok c' v"
      using w a by (cases "v = w") (auto simp: c' worker_ok_def ok_def)
  qed (use safe_D [OF assms(1)] in \<open>simp_all add: c'\<close>)
qed

lemma worker_ok_frame:
  assumes "(v \<in> set (idle_workers (shared c'))) = (v \<in> set (idle_workers (shared c)))"
    and "job (workers (shared c') ! v) = job (workers (shared c) ! v)"
    and "worker_lock (workers (shared c') ! v) = worker_lock (workers (shared c) ! v)"
    and "wpcs c' ! v = wpcs c ! v"
    and "length (filter (setting v) (cpcs c')) = length (filter (setting v) (cpcs c))"
    and "length (filter (releasing v) (cpcs c')) = length (filter (releasing v) (cpcs c))"
  shows "worker_ok c' v = worker_ok c v"
  using assms by (simp add: worker_ok_def)

lemma ok_parked: "parked pc \<Longrightarrow> parked pc' \<Longrightarrow> ok i h l pc a b = ok i h l pc' a b"
  by (cases pc; cases pc') (simp_all add: ok_def)

lemma ok_busy:
  assumes "ok i h l pc a b" and "\<not> parked pc"
  shows "\<not> i \<and> a = 0 \<and> b = 0 \<and> l = Locked \<and> h = (pc = W_take_job)"
  using assms by (cases pc) (auto simp: ok_def split: if_splits)

lemma ok_unlocked:
  assumes "ok i h l pc a b" and "l = Unlocked"
  shows "\<not> i \<and> a = 0 \<and> b = 0 \<and> h \<and> parked pc"
  using assms by (cases pc) (auto simp: ok_def split: if_splits)

lemma ok_setting:
  assumes "ok i h l pc a b" and "0 < a"
  shows "\<not> i \<and> a = 1 \<and> b = 0 \<and> l = Locked \<and> \<not> h \<and> parked pc"
  using assms by (auto simp: ok_def split: if_splits)

lemma ok_releasing:
  assumes "ok i h l pc a b" and "0 < b"
  shows "\<not> i \<and> a = 0 \<and> b = 1 \<and> l = Locked \<and> h \<and> parked pc"
  using assms by (auto simp: ok_def split: if_splits)

lemma ok_idle:
  assumes "ok i h l pc a b" and "i"
  shows "a = 0 \<and> b = 0 \<and> l = Locked \<and> \<not> h \<and> parked pc"
  using assms by (auto simp: ok_def split: if_splits)

lemma safe_worker:
  assumes "safe c" and "worker_step w c = Some c'"
  shows "safe c'"
proof -
  from assms(2) have w: "w < length (wpcs c)"
    by (cases "w < length (wpcs c)") (simp_all add: worker_step_simps)
  note S = safe_D [OF assms(1)]
  from S(1) w have ww: "w < length (workers (shared c))" by simp
  from S(5) [OF ww] have okw:
    "ok (w \<in> set (idle_workers (shared c))) (job (workers (shared c) ! w) \<noteq> None)
       (worker_lock (workers (shared c) ! w)) (wpcs c ! w)
       (length (filter (setting w) (cpcs c))) (length (filter (releasing w) (cpcs c)))"
    by (simp add: worker_ok_def)
  show ?thesis
  proof (cases "wpcs c ! w")
    case W_acquire
    with assms(2) w have u: "worker_lock (workers (shared c) ! w) = Unlocked"
      and c': "c' = c\<lparr>shared := lock_worker w (shared c), wpcs := (wpcs c)[w := W_take_job]\<rparr>"
      by (auto simp: worker_step_simps split: if_splits)
    note U = ok_unlocked [OF okw u]
    show ?thesis
    proof (rule safe_I)
      fix v assume "v < length (workers (shared c'))"
      then have v: "v < length (workers (shared c))"
        by (simp add: c' lock_worker_simps)
      show "worker_ok c' v"
      proof (cases "v = w")
        case True
        with U w ww show ?thesis
          by (simp add: c' worker_ok_def lock_worker_def ok_def)
      next
        case False
        then have "worker_ok c' v = worker_ok c v"
          by (intro worker_ok_frame) (simp_all add: c' lock_worker_def)
        with S(5) [OF v] show ?thesis by simp
      qed
    qed (use S in \<open>simp_all add: c' lock_worker_simps\<close>)
  next
    case W_take_job
    then have np: "\<not> parked (wpcs c ! w)" by simp
    note B = ok_busy [OF okw np]
    from B W_take_job obtain fn deliver
      where j: "job (workers (shared c) ! w) = Some (fn, deliver)"
      by auto
    with assms(2) w W_take_job have c': "c' = c\<lparr>shared := (shared c)\<lparr>workers :=
          (workers (shared c))[w := (workers (shared c) ! w)\<lparr>job := None\<rparr>]\<rparr>,
        wpcs := (wpcs c)[w := W_capture fn deliver]\<rparr>"
      by (simp add: worker_step_simps)
    show ?thesis
    proof (rule safe_I)
      fix v assume "v < length (workers (shared c'))"
      then have v: "v < length (workers (shared c))"
        by (simp add: c')
      show "worker_ok c' v"
      proof (cases "v = w")
        case True
        with B w ww show ?thesis
          by (simp add: c' worker_ok_def ok_def)
      next
        case False
        then have "worker_ok c' v = worker_ok c v"
          by (intro worker_ok_frame) (simp_all add: c')
        with S(5) [OF v] show ?thesis by simp
      qed
    qed (use S in \<open>simp_all add: c'\<close>)
  next
    case (W_capture fn deliver)
    then have np: "\<not> parked (wpcs c ! w)" by simp
    note B = ok_busy [OF okw np]
    from assms(2) w W_capture have c': "c' = c\<lparr>shared := emit (Ev_ran w fn deliver (capture fn)) (shared c),
        wpcs := (wpcs c)[w := W_register fn deliver (capture fn)]\<rparr>"
      by (simp add: worker_step_simps)
    show ?thesis
    proof (rule safe_I)
      fix v assume "v < length (workers (shared c'))"
      then have v: "v < length (workers (shared c))"
        by (simp add: c' emit_def)
      show "worker_ok c' v"
      proof (cases "v = w")
        case True
        with B w ww W_capture show ?thesis
          by (simp add: c' worker_ok_def ok_def emit_def)
      next
        case False
        then have "worker_ok c' v = worker_ok c v"
          by (intro worker_ok_frame) (simp_all add: c' emit_def)
        with S(5) [OF v] show ?thesis by simp
      qed
    qed (use S in \<open>simp_all add: c' emit_def\<close>)
  next
    case (W_register fn deliver result)
    then have np: "\<not> parked (wpcs c ! w)" by simp
    note B = ok_busy [OF okw np]
    from assms(2) w W_register have c': "c' = c\<lparr>shared := register_idle w (shared c),
        wpcs := (wpcs c)[w := W_deliver fn deliver result]\<rparr>"
      by (simp add: worker_step_simps)
    have idle: "idle_workers (shared c') = idle_workers (shared c) @ [w]"
      using B by (simp add: c' register_idle_simps dict_setitem_def)
    show ?thesis
    proof (rule safe_I)
      fix v assume "v < length (workers (shared c'))"
      then have v: "v < length (workers (shared c))"
        by (simp add: c' register_idle_simps)
      show "worker_ok c' v"
      proof (cases "v = w")
        case True
        with B w ww W_register idle show ?thesis
          by (simp add: c' worker_ok_def ok_def register_idle_simps)
      next
        case False
        then have "worker_ok c' v = worker_ok c v"
          by (intro worker_ok_frame) (simp_all add: idle, simp_all add: c' register_idle_simps)
        with S(5) [OF v] show ?thesis by simp
      qed
    next
      show "distinct (idle_workers (shared c'))"
        using S(2) B by (simp add: idle)
    next
      fix v assume "v \<in> set (idle_workers (shared c'))"
      then show "v < length (workers (shared c'))"
        using S(3) [of v] ww by (auto simp: idle, simp_all add: c' register_idle_simps)
    qed (use S in \<open>simp_all add: c' register_idle_simps\<close>)
  next
    case (W_deliver fn deliver result)
    from assms(2) w W_deliver have c': "c' = c\<lparr>shared :=
          snd (call_deliver w fn deliver result Report_written (shared c)),
        wpcs := (wpcs c)[w := W_acquire]\<rparr>"
      by (simp add: worker_step_simps)
    show ?thesis
    proof (rule safe_I)
      fix v assume "v < length (workers (shared c'))"
      then have v: "v < length (workers (shared c))"
        by (simp add: c' call_deliver_simps)
      show "worker_ok c' v"
      proof (cases "v = w")
        case True
        have "parked (wpcs c ! w)" "parked (wpcs c' ! w)"
          using W_deliver w by (simp_all add: c')
        from ok_parked [OF this] okw True show ?thesis
          by (simp add: worker_ok_def, simp add: c' call_deliver_simps)
      next
        case False
        then have "worker_ok c' v = worker_ok c v"
          by (intro worker_ok_frame) (simp_all add: c' call_deliver_simps)
        with S(5) [OF v] show ?thesis by simp
      qed
    qed (use S in \<open>simp_all add: c' call_deliver_simps\<close>)
  next
    case W_del_idle
    show ?thesis
    proof (cases "w \<in> set (idle_workers (shared c))")
      case True
      note I = ok_idle [OF okw True]
      from assms(2) w W_del_idle True have c': "c' = c\<lparr>shared := emit (Ev_unregistered w)
            ((shared c)\<lparr>idle_workers := removeAll w (idle_workers (shared c))\<rparr>),
          wpcs := (wpcs c)[w := W_exited]\<rparr>"
        by (simp add: worker_step_simps)
      show ?thesis
      proof (rule safe_I)
        fix v assume "v < length (workers (shared c'))"
        then have v: "v < length (workers (shared c))"
          by (simp add: c' emit_def)
        show "worker_ok c' v"
        proof (cases "v = w")
          case True
          with I w ww show ?thesis
            by (simp add: c' worker_ok_def ok_def emit_def)
        next
          case False
          then have "worker_ok c' v = worker_ok c v"
            by (intro worker_ok_frame) (simp_all add: c' emit_def)
          with S(5) [OF v] show ?thesis by simp
        qed
      next
        show "distinct (idle_workers (shared c'))"
          using S(2) by (simp add: c' emit_def distinct_removeAll)
      next
        fix v assume "v \<in> set (idle_workers (shared c'))"
        then show "v < length (workers (shared c'))"
          using S(3) [of v] by (simp add: c' emit_def)
      qed (use S in \<open>simp_all add: c' emit_def\<close>)
    next
      case False
      with assms(2) w W_del_idle have c': "c' = c\<lparr>shared := shared c,
          wpcs := (wpcs c)[w := W_acquire]\<rparr>"
        by (simp add: worker_step_simps)
      show ?thesis
      proof (rule safe_I)
        fix v assume "v < length (workers (shared c'))"
        then have v: "v < length (workers (shared c))"
          by (simp add: c')
        show "worker_ok c' v"
        proof (cases "v = w")
          case True
          have "parked (wpcs c ! w)" "parked (wpcs c' ! w)"
            using W_del_idle w by (simp_all add: c')
          from ok_parked [OF this] okw True show ?thesis
            by (simp add: worker_ok_def, simp add: c')
        next
          case False
          then have "worker_ok c' v = worker_ok c v"
            by (intro worker_ok_frame) (simp_all add: c')
          with S(5) [OF v] show ?thesis by simp
        qed
      qed (use S in \<open>simp_all add: c'\<close>)
    qed
  next
    case W_exited
    with assms(2) show ?thesis
      by (simp add: worker_step_simps)
  next
    case (W_crashed e)
    with assms(2) show ?thesis
      by (simp add: worker_step_simps)
  qed
qed

lemma no_call_beyond:
  assumes "\<And>k. k < length ps \<Longrightarrow> call_ok n (ps ! k)"
  shows "filter (setting n) ps = []" and "filter (releasing n) ps = []"
proof -
  have "\<not> setting n p \<and> \<not> releasing n p" if "p \<in> set ps" for p
  proof -
    from that obtain k where "k < length ps" and "ps ! k = p"
      by (auto simp: in_set_conv_nth)
    with assms [of k] show ?thesis
      by (cases p) auto
  qed
  then show "filter (setting n) ps = []" and "filter (releasing n) ps = []"
    by (simp_all add: filter_empty_conv)
qed

lemma last_notin_butlast: "distinct xs \<Longrightarrow> xs \<noteq> [] \<Longrightarrow> last xs \<notin> set (butlast xs)"
  by (metis append_butlast_last_id distinct_append disjoint_iff list.set_intros(1))

lemma in_butlast_iff:
  "xs \<noteq> [] \<Longrightarrow> v \<noteq> last xs \<Longrightarrow> v \<in> set (butlast xs) \<longleftrightarrow> v \<in> set xs"
  by (metis append_butlast_last_id in_set_butlastD insert_iff list.set(2) rotate1.simps(2)
      set_rotate1)

lemma safe_caller:
  assumes "safe c" and "caller_step k c = Some c'"
  shows "safe c'"
proof -
  from assms(2) have k: "k < length (cpcs c)"
    by (cases "k < length (cpcs c)") (simp_all add: caller_step_simps)
  note S = safe_D [OF assms(1)]
  let ?n = "length (workers (shared c))"
  show ?thesis
  proof (cases "cpcs c ! k")
    case (C_pop fn deliver)
    show ?thesis
    proof (cases "idle_workers (shared c) = []")
      case True
      with assms(2) k C_pop have c': "c' = c\<lparr>shared := snd (WorkerThread_init None (shared c)),
          wpcs := wpcs c @ [W_acquire],
          cpcs := (cpcs c)[k := C_set_job ?n fn deliver]\<rparr>"
        by (simp add: caller_step_simps)
      have ws: "workers (shared c') =
          workers (shared c) @
            [\<lparr>job = None, worker_lock = Locked,
              thread = \<lparr>daemon = True,
                        name = ''Trio worker thread '' @ str_nat (name_counter (shared c)),
                        started = True\<rparr>\<rparr>]"
        and idle: "idle_workers (shared c') = []"
        using True by (simp_all add: c' WorkerThread_init_def Let_def emit_def lock_defs)
      note Z = no_call_beyond [of "cpcs c" ?n, OF S(4)]
      show ?thesis
      proof (rule safe_I)
        fix v assume "v < length (workers (shared c'))"
        then have v: "v < ?n \<or> v = ?n"
          by (auto simp: ws)
        show "worker_ok c' v"
        proof (cases "v = ?n")
          case True
          have a: "length (filter (setting ?n) (cpcs c')) = 1"
            using count_update_gain [of k "cpcs c" "setting ?n" "C_set_job ?n fn deliver"]
              k C_pop Z(1) by (simp add: c')
          have b: "length (filter (releasing ?n) (cpcs c')) = 0"
            using count_update_same [of k "cpcs c" "releasing ?n" "C_set_job ?n fn deliver"]
              k C_pop Z(2) by (simp add: c')
          have p: "wpcs c' ! ?n = W_acquire"
            using S(1) by (simp add: c' nth_append)
          from a b p True show ?thesis
            by (simp add: worker_ok_def ok_def idle ws)
        next
          case False
          with v have v': "v < ?n" by simp
          have "worker_ok c' v = worker_ok c v"
          proof (intro worker_ok_frame)
            show "length (filter (setting v) (cpcs c')) = length (filter (setting v) (cpcs c))"
              using count_update_same [of k "cpcs c" "setting v" "C_set_job ?n fn deliver"]
                k C_pop False by (simp add: c')
            show "length (filter (releasing v) (cpcs c')) =
                length (filter (releasing v) (cpcs c))"
              using count_update_same [of k "cpcs c" "releasing v" "C_set_job ?n fn deliver"]
                k C_pop by (simp add: c')
            show "wpcs c' ! v = wpcs c ! v"
              using v' S(1) by (simp add: c' nth_append)
          qed (use v' True in \<open>simp_all add: idle ws nth_append\<close>)
          with S(5) [OF v'] show ?thesis by simp
        qed
      next
        fix j assume "j < length (cpcs c')"
        then have j: "j < length (cpcs c)" by (simp add: c')
        show "call_ok (length (workers (shared c'))) (cpcs c' ! j)"
        proof (cases "j = k")
          case True
          with k show ?thesis by (simp add: ws) (simp add: c')
        next
          case False
          with call_ok_mono [OF S(4) [OF j], of "Suc ?n"] show ?thesis
            by (simp add: ws) (simp add: c')
        qed
      qed (use S in \<open>simp_all add: idle ws, simp_all add: c'\<close>)
    next
      case False
      let ?w = "last (idle_workers (shared c))"
      from assms(2) k C_pop False have c': "c' = c\<lparr>shared := emit (Ev_popped ?w)
            ((shared c)\<lparr>idle_workers := butlast (idle_workers (shared c))\<rparr>),
          wpcs := wpcs c,
          cpcs := (cpcs c)[k := C_set_job ?w fn deliver]\<rparr>"
        by (simp add: caller_step_simps)
      from False have wi: "?w \<in> set (idle_workers (shared c))" by simp
      then have ww: "?w < ?n" by (rule S(3))
      from S(5) [OF ww] wi have I: "length (filter (setting ?w) (cpcs c)) = 0 \<and>
          length (filter (releasing ?w) (cpcs c)) = 0 \<and>
          worker_lock (workers (shared c) ! ?w) = Locked \<and>
          \<not> job (workers (shared c) ! ?w) \<noteq> None \<and> parked (wpcs c ! ?w)"
        unfolding worker_ok_def by (rule ok_idle)
      show ?thesis
      proof (rule safe_I)
        fix v assume "v < length (workers (shared c'))"
        then have v: "v < ?n" by (simp add: c' emit_def)
        show "worker_ok c' v"
        proof (cases "v = ?w")
          case True
          have a: "length (filter (setting ?w) (cpcs c')) = 1"
            using count_update_gain [of k "cpcs c" "setting ?w" "C_set_job ?w fn deliver"]
              k C_pop I by (simp add: c')
          have b: "length (filter (releasing ?w) (cpcs c')) = 0"
            using count_update_same [of k "cpcs c" "releasing ?w" "C_set_job ?w fn deliver"]
              k C_pop I by (simp add: c')
          have n: "?w \<notin> set (idle_workers (shared c'))"
            using last_notin_butlast [OF S(2) False] by (simp add: c' emit_def)
          from a b n I True show ?thesis
            by (simp add: worker_ok_def ok_def, simp add: c' emit_def)
        next
          case neq: False
          have "worker_ok c' v = worker_ok c v"
          proof (intro worker_ok_frame)
            show "length (filter (setting v) (cpcs c')) = length (filter (setting v) (cpcs c))"
              using count_update_same [of k "cpcs c" "setting v" "C_set_job ?w fn deliver"]
                k C_pop neq by (simp add: c')
            show "length (filter (releasing v) (cpcs c')) =
                length (filter (releasing v) (cpcs c))"
              using count_update_same [of k "cpcs c" "releasing v" "C_set_job ?w fn deliver"]
                k C_pop by (simp add: c')
            show "(v \<in> set (idle_workers (shared c'))) = (v \<in> set (idle_workers (shared c)))"
              using in_butlast_iff [OF False neq] by (simp add: c' emit_def)
          qed (simp_all add: c' emit_def)
          with S(5) [OF v] show ?thesis by simp
        qed
      next
        fix j assume "j < length (cpcs c')"
        then have j: "j < length (cpcs c)" by (simp add: c')
        show "call_ok (length (workers (shared c'))) (cpcs c' ! j)"
        proof (cases "j = k")
          case True
          with k ww show ?thesis by (simp add: c' emit_def)
        next
          case False
          with S(4) [OF j] show ?thesis
            by (simp add: c' emit_def)
        qed
      next
        show "distinct (idle_workers (shared c'))"
          using S(2) by (simp add: c' emit_def distinct_butlast)
      next
        fix v assume "v \<in> set (idle_workers (shared c'))"
        then have "v \<in> set (idle_workers (shared c))"
          by (auto simp: c' emit_def dest: in_set_butlastD)
        then show "v < length (workers (shared c'))"
          using S(3) [of v] by (simp add: c' emit_def)
      qed (use S in \<open>simp_all add: c' emit_def\<close>)
    qed
  next
    case (C_set_job w fn deliver)
    with assms(2) k have c': "c' = c\<lparr>shared := set_job w fn deliver (shared c),
        cpcs := (cpcs c)[k := C_release w]\<rparr>"
      by (simp add: caller_step_simps)
    from S(4) [OF k] C_set_job have ww: "w < ?n" by simp
    have "0 < length (filter (setting w) (cpcs c))"
      using count_pos [of k "cpcs c" "setting w"] k C_set_job by simp
    with S(5) [OF ww] have A: "w \<notin> set (idle_workers (shared c)) \<and>
        length (filter (setting w) (cpcs c)) = 1 \<and>
        length (filter (releasing w) (cpcs c)) = 0 \<and>
        worker_lock (workers (shared c) ! w) = Locked \<and>
        \<not> job (workers (shared c) ! w) \<noteq> None \<and> parked (wpcs c ! w)"
      unfolding worker_ok_def by (rule ok_setting)
    show ?thesis
    proof (rule safe_I)
      fix v assume "v < length (workers (shared c'))"
      then have v: "v < ?n" by (simp add: c' set_job_simps)
      show "worker_ok c' v"
      proof (cases "v = w")
        case True
        have a: "length (filter (setting w) (cpcs c')) = 0"
          using count_update_loss [of k "cpcs c" "setting w" "C_release w"] k C_set_job A
          by (simp add: c')
        have b: "length (filter (releasing w) (cpcs c')) = 1"
          using count_update_gain [of k "cpcs c" "releasing w" "C_release w"] k C_set_job A
          by (simp add: c')
        from a b A True ww show ?thesis
          by (simp add: worker_ok_def ok_def, simp add: c' set_job_simps)
      next
        case False
        have "worker_ok c' v = worker_ok c v"
        proof (intro worker_ok_frame)
          show "length (filter (setting v) (cpcs c')) = length (filter (setting v) (cpcs c))"
            using count_update_same [of k "cpcs c" "setting v" "C_release w"]
              k C_set_job False by (simp add: c')
          show "length (filter (releasing v) (cpcs c')) =
              length (filter (releasing v) (cpcs c))"
            using count_update_same [of k "cpcs c" "releasing v" "C_release w"]
              k C_set_job False by (simp add: c')
        qed (use False in \<open>simp_all add: c' set_job_def emit_def\<close>)
        with S(5) [OF v] show ?thesis by simp
      qed
    next
      fix j assume "j < length (cpcs c')"
      then have j: "j < length (cpcs c)" by (simp add: c')
      show "call_ok (length (workers (shared c'))) (cpcs c' ! j)"
      proof (cases "j = k")
        case True
        with k ww show ?thesis by (simp add: c' set_job_simps)
      next
        case False
        with S(4) [OF j] show ?thesis
          by (simp add: c' set_job_simps)
      qed
    qed (use S in \<open>simp_all add: c' set_job_simps\<close>)
  next
    case (C_release w)
    from S(4) [OF k] C_release have ww: "w < ?n" by simp
    have "0 < length (filter (releasing w) (cpcs c))"
      using count_pos [of k "cpcs c" "releasing w"] k C_release by simp
    with S(5) [OF ww] have B: "w \<notin> set (idle_workers (shared c)) \<and>
        length (filter (setting w) (cpcs c)) = 0 \<and>
        length (filter (releasing w) (cpcs c)) = 1 \<and>
        worker_lock (workers (shared c) ! w) = Locked \<and>
        job (workers (shared c) ! w) \<noteq> None \<and> parked (wpcs c ! w)"
      unfolding worker_ok_def by (rule ok_releasing)
    with assms(2) k C_release have c': "c' = c\<lparr>shared := emit (Ev_released w)
          ((shared c)\<lparr>workers := (workers (shared c))
             [w := (workers (shared c) ! w)\<lparr>worker_lock := Unlocked\<rparr>]\<rparr>),
        cpcs := (cpcs c)[k := C_returned]\<rparr>"
      by (simp add: caller_step_simps)
    show ?thesis
    proof (rule safe_I)
      fix v assume "v < length (workers (shared c'))"
      then have v: "v < ?n" by (simp add: c' emit_def)
      show "worker_ok c' v"
      proof (cases "v = w")
        case True
        have a: "length (filter (setting w) (cpcs c')) = 0"
          using count_update_same [of k "cpcs c" "setting w" C_returned] k C_release B
          by (simp add: c')
        have b: "length (filter (releasing w) (cpcs c')) = 0"
          using count_update_loss [of k "cpcs c" "releasing w" C_returned] k C_release B
          by (simp add: c')
        have p: "parked (wpcs c' ! w)" using B by (simp add: c')
        from a b B True ww p show ?thesis
          by (cases "wpcs c' ! w")
            (simp_all add: worker_ok_def ok_def, simp_all add: c' emit_def)
      next
        case False
        have "worker_ok c' v = worker_ok c v"
        proof (intro worker_ok_frame)
          show "length (filter (setting v) (cpcs c')) = length (filter (setting v) (cpcs c))"
            using count_update_same [of k "cpcs c" "setting v" C_returned]
              k C_release by (simp add: c')
          show "length (filter (releasing v) (cpcs c')) =
              length (filter (releasing v) (cpcs c))"
            using count_update_same [of k "cpcs c" "releasing v" C_returned]
              k C_release False by (simp add: c')
        qed (use False in \<open>simp_all add: c' emit_def\<close>)
        with S(5) [OF v] show ?thesis by simp
      qed
    next
      fix j assume "j < length (cpcs c')"
      then have j: "j < length (cpcs c)" by (simp add: c')
      show "call_ok (length (workers (shared c'))) (cpcs c' ! j)"
      proof (cases "j = k")
        case True
        with k show ?thesis by (simp add: c' emit_def)
      next
        case False
        with S(4) [OF j] show ?thesis
          by (simp add: c' emit_def)
      qed
    qed (use S in \<open>simp_all add: c' emit_def\<close>)
  next
    case C_returned
    with assms(2) show ?thesis
      by (simp add: caller_step_simps)
  next
    case (C_raised e)
    with assms(2) show ?thesis
      by (simp add: caller_step_simps)
  qed
qed

lemma safe_start_fails:
  assumes "safe c" and "step (Start_fails k e) c = Some c'"
  shows "safe c'"
proof -
  from start_fails_step [OF assms(2)] obtain fn deliver
    where k: "k < length (cpcs c)" and p: "cpcs c ! k = C_pop fn deliver"
      and c': "c' = c\<lparr>shared := (shared c)\<lparr>name_counter := Suc (name_counter (shared c))\<rparr>,
        cpcs := (cpcs c)[k := C_raised e]\<rparr>"
    by blast
  note S = safe_D [OF assms(1)]
  show ?thesis
  proof (rule safe_I)
    fix v assume "v < length (workers (shared c'))"
    then have v: "v < length (workers (shared c))" by (simp add: c')
    have "worker_ok c' v = worker_ok c v"
    proof (intro worker_ok_frame)
      show "length (filter (setting v) (cpcs c')) = length (filter (setting v) (cpcs c))"
        using count_update_same [of k "cpcs c" "setting v" "C_raised e"] k p by (simp add: c')
      show "length (filter (releasing v) (cpcs c')) = length (filter (releasing v) (cpcs c))"
        using count_update_same [of k "cpcs c" "releasing v" "C_raised e"] k p by (simp add: c')
    qed (simp_all add: c')
    with S(5) [OF v] show "worker_ok c' v" by simp
  next
    fix j assume "j < length (cpcs c')"
    then have j: "j < length (cpcs c)" by (simp add: c')
    show "call_ok (length (workers (shared c'))) (cpcs c' ! j)"
    proof (cases "j = k")
      case True
      with k show ?thesis by (simp add: c')
    next
      case False
      with S(4) [OF j] show ?thesis by (simp add: c')
    qed
  qed (use S in \<open>simp_all add: c'\<close>)
qed

lemma safe_report_fails:
  assumes "safe c" and "step (Report_fails w rep) c = Some c'"
  shows "safe c'"
proof -
  from report_fails_step [OF assms(2)] obtain fn deliver result e'
    where w: "w < length (wpcs c)" and p: "wpcs c ! w = W_deliver fn deliver result"
      and c': "c' = c\<lparr>shared := snd (call_deliver w fn deliver result rep (shared c)),
        wpcs := (wpcs c)[w := W_crashed e']\<rparr>"
    by blast
  note S = safe_D [OF assms(1)]
  show ?thesis
  proof (rule safe_I)
    fix v assume "v < length (workers (shared c'))"
    then have v: "v < length (workers (shared c))"
      by (simp add: c' call_deliver_simps)
    show "worker_ok c' v"
    proof (cases "v = w")
      case True
      have "parked (wpcs c ! w)" "parked (wpcs c' ! w)"
        using p w by (simp_all add: c')
      from ok_parked [OF this] S(5) [OF v] True show ?thesis
        by (simp add: worker_ok_def, simp add: c' call_deliver_simps)
    next
      case False
      then have "worker_ok c' v = worker_ok c v"
        by (intro worker_ok_frame) (simp_all add: c' call_deliver_simps)
      with S(5) [OF v] show ?thesis by simp
    qed
  qed (use S in \<open>simp_all add: c' call_deliver_simps\<close>)
qed

lemma safe_step:
  assumes "safe c" and "step a c = Some c'"
  shows "safe c'"
proof (cases a)
  case (Call fn deliver)
  with assms safe_call [OF assms(1), of fn deliver] show ?thesis
    by auto
next
  case (Caller k)
  with assms show ?thesis
    by (simp add: safe_caller)
next
  case (Worker w)
  with assms show ?thesis
    by (simp add: safe_worker)
next
  case (Timeout w)
  with assms show ?thesis
    by (simp add: safe_timeout)
next
  case (Start_fails k e)
  with assms show ?thesis
    by (blast intro: safe_start_fails)
next
  case (Report_fails w rep)
  with assms show ?thesis
    by (blast intro: safe_report_fails)
qed

lemma safe_run:
  "safe c \<Longrightarrow> run sched c = Some c' \<Longrightarrow> safe c'"
proof (induction sched arbitrary: c)
  case Nil
  then show ?case by simp
next
  case (Cons a sched)
  from Cons.prems(2) obtain c1 where s: "step a c = Some c1" and r: "run sched c1 = Some c'"
    by (auto split: option.splits)
  from Cons.prems(1) s have "safe c1"
    by (rule safe_step)
  from Cons.IH [OF this r] show ?case .
qed

lemma run_safe: "run sched init_config = Some c \<Longrightarrow> safe c"
  using safe_init by (rule safe_run)

lemma run_append:
  "run (xs @ ys) c = (case run xs c of None \<Rightarrow> None | Some c' \<Rightarrow> run ys c')"
  by (induction xs arbitrary: c) (simp_all split: option.split)

lemma safe_worker_ok:
  assumes "safe c" and "w < length (wpcs c)"
  shows "ok (w \<in> set (idle_workers (shared c))) (job (workers (shared c) ! w) \<noteq> None)
       (worker_lock (workers (shared c) ! w)) (wpcs c ! w)
       (length (filter (setting w) (cpcs c))) (length (filter (releasing w) (cpcs c)))"
proof -
  from safe_D(1) [OF assms(1)] assms(2) have "w < length (workers (shared c))" by simp
  from safe_D(5) [OF assms(1) this] show ?thesis
    by (simp add: worker_ok_def)
qed

text \<open>The idle registry holds existing workers only, each once, with their locks locked.\<close>

lemma safe_registry:
  assumes "safe c" and "w \<in> set (idle_workers (shared c))"
  shows "w < length (workers (shared c))"
    and "worker_lock (workers (shared c) ! w) = Locked"
    and "job (workers (shared c) ! w) = None"
proof -
  show w: "w < length (workers (shared c))"
    using assms by (rule safe_D(3))
  with safe_D(1) [OF assms(1)] have "w < length (wpcs c)" by simp
  note I = ok_idle [OF safe_worker_ok [OF assms(1) this] assms(2)]
  from I show "worker_lock (workers (shared c) ! w) = Locked"
    by blast
  from I show "job (workers (shared c) ! w) = None"
    by blast
qed

text \<open>
  A worker whose lock is free has a job in its slot and is not in the idle registry; a
  worker that is in the middle of a job is not in the registry either.
\<close>

lemma safe_unlocked:
  assumes "safe c" and "w < length (wpcs c)"
    and "worker_lock (workers (shared c) ! w) = Unlocked"
  shows "job (workers (shared c) ! w) \<noteq> None" and "w \<notin> set (idle_workers (shared c))"
  using ok_unlocked [OF safe_worker_ok [OF assms(1,2)] assms(3)] by simp_all

lemma safe_busy:
  assumes "safe c" and "w < length (wpcs c)" and "\<not> parked (wpcs c ! w)"
  shows "w \<notin> set (idle_workers (shared c))" and "\<not> job_coming c w"
  using ok_busy [OF safe_worker_ok [OF assms(1,2)] assms(3)]
  by (auto simp: job_coming_def)

lemma safe_parked_absent:
  assumes "safe c" and "w < length (wpcs c)" and "parked (wpcs c ! w)"
    and "w \<notin> set (idle_workers (shared c))"
  shows "job_coming c w"
proof -
  from safe_worker_ok [OF assms(1,2)] assms(3,4) show ?thesis
    by (cases "wpcs c ! w") (auto simp: ok_def job_coming_def split: if_splits)
qed

section \<open>Some runs\<close>

lemmas run_defs =
  init_config_def ThreadCache_init_def caller_step_def caller_next_def worker_step_def
  worker_next_def timeout_step_def spawning_def reporting_def
  pop_or_spawn_def dict_defs WorkerThread_init_def Let_def emit_def lock_defs set_job_def
  release_def lock_worker_def take_job_def run_fn_def capture_def register_idle_def
  call_deliver_def del_idle_def str_nat.simps

lemma race_run:
  "run race_schedule init_config =
     Some \<lparr>shared =
        \<lparr>idle_workers = [],
         workers = [\<lparr>job = None, worker_lock = Locked,
                     thread = \<lparr>daemon = True, name = ''Trio worker thread 0'',
                                started = True\<rparr>\<rparr>],
         name_counter = 1,
         stderr = [],
         trace = [Ev_spawned 0, Ev_job_set 0, Ev_released 0, Ev_ran 0 returns_seven deliver_ok (Value 7),
                  Ev_registered 0, Ev_popped 0]\<rparr>,
        wpcs = [W_deliver returns_seven deliver_ok (Value 7)],
        cpcs = [C_returned, C_set_job 0 returns_seven deliver_ok]\<rparr>"
  by (simp add: race_schedule_def run_defs returns_seven_def)

lemma race_deliver_run:
  "run (race_schedule @ [Worker 0]) init_config =
     Some \<lparr>shared =
        \<lparr>idle_workers = [],
         workers = [\<lparr>job = None, worker_lock = Locked,
                     thread = \<lparr>daemon = True, name = ''Trio worker thread 0'',
                                started = True\<rparr>\<rparr>],
         name_counter = 1,
         stderr = [],
         trace = [Ev_spawned 0, Ev_job_set 0, Ev_released 0, Ev_ran 0 returns_seven deliver_ok (Value 7),
                  Ev_registered 0, Ev_popped 0, Ev_deliver_called 0 returns_seven deliver_ok (Value 7)]\<rparr>,
        wpcs = [W_acquire],
        cpcs = [C_returned, C_set_job 0 returns_seven deliver_ok]\<rparr>"
  by (simp add: race_schedule_def run_defs returns_seven_def deliver_ok_def)

lemma register_run:
  "run register_schedule init_config =
     Some \<lparr>shared =
        \<lparr>idle_workers = [],
         workers = [\<lparr>job = None, worker_lock = Locked,
                     thread = \<lparr>daemon = True, name = ''Trio worker thread 0'',
                                started = True\<rparr>\<rparr>],
         name_counter = 1,
         stderr = [],
         trace = [Ev_spawned 0, Ev_job_set 0, Ev_released 0, Ev_ran 0 returns_seven deliver_ok (Value 7)]\<rparr>,
        wpcs = [W_register returns_seven deliver_ok (Value 7)],
        cpcs = [C_returned]\<rparr>"
  by (simp add: register_schedule_def race_schedule_def run_defs returns_seven_def)

lemma idle_run: "run idle_schedule init_config = Some idle_config"
  by (simp add: idle_schedule_def idle_config_def idle_state_def run_defs returns_seven_def
      deliver_ok_def)

lemma timeout_run:
  "run timeout_schedule init_config =
     Some \<lparr>shared =
        \<lparr>idle_workers = [0],
         workers = [\<lparr>job = None, worker_lock = Locked,
                     thread = \<lparr>daemon = True, name = ''Trio worker thread 0'',
                                started = True\<rparr>\<rparr>],
         name_counter = 1,
         stderr = [],
         trace = [Ev_spawned 0, Ev_job_set 0, Ev_released 0, Ev_ran 0 returns_seven deliver_ok (Value 7),
                  Ev_registered 0, Ev_deliver_called 0 returns_seven deliver_ok (Value 7)]\<rparr>,
        wpcs = [W_del_idle],
        cpcs = [C_returned]\<rparr>"
  by (simp add: timeout_schedule_def run_append idle_run)
    (simp add: idle_config_def idle_state_def timeout_step_def lock_defs)

lemma timeout_race_run:
  "run timeout_race_schedule init_config =
     Some \<lparr>shared =
        \<lparr>idle_workers = [],
         workers = [\<lparr>job = None, worker_lock = Locked,
                     thread = \<lparr>daemon = True, name = ''Trio worker thread 0'',
                                started = True\<rparr>\<rparr>],
         name_counter = 1,
         stderr = [],
         trace = [Ev_spawned 0, Ev_job_set 0, Ev_released 0, Ev_ran 0 returns_seven deliver_ok (Value 7),
                  Ev_registered 0, Ev_deliver_called 0 returns_seven deliver_ok (Value 7), Ev_popped 0]\<rparr>,
        wpcs = [W_del_idle],
        cpcs = [C_returned, C_set_job 0 raises_value_error deliver_ok]\<rparr>"
  by (simp add: timeout_race_schedule_def run_append idle_run)
    (simp add: idle_config_def idle_state_def timeout_step_def caller_step_def
      caller_next_def pop_or_spawn_def dict_defs emit_def lock_defs Let_def)

lemma pending_run:
  "run pending_schedule init_config =
     Some \<lparr>shared = pending_state, wpcs = [W_acquire], cpcs = [C_returned]\<rparr>"
  by (simp add: pending_schedule_def pending_state_def run_defs)

lemma failing_run:
  "run failing_schedule init_config =
     Some \<lparr>shared = failing_state, wpcs = [W_acquire], cpcs = [C_returned]\<rparr>"
  by (simp add: failing_schedule_def failing_state_def run_defs)

lemma dead_run:
  "run dead_schedule init_config =
     Some \<lparr>shared = dead_state, wpcs = [W_crashed stderr_closed], cpcs = [C_returned]\<rparr>"
  by (simp add: dead_schedule_def run_append pending_run)
    (simp add: pending_state_def dead_state_def run_defs returns_seven_def deliver_raises_def)

lemma lost_run: "run lost_schedule init_config = Some lost_config"
  by (simp add: lost_schedule_def run_append dead_run)
    (simp add: dead_state_def lost_config_def run_defs)

lemma refused_run:
  "run refused_schedule init_config =
     Some \<lparr>shared =
        \<lparr>idle_workers = [], workers = [], name_counter = 1, stderr = [], trace = []\<rparr>,
        wpcs = [],
        cpcs = [C_raised no_thread]\<rparr>"
  by (simp add: refused_schedule_def run_defs)

section \<open>Construction of a worker\<close>

text \<open>
  Claim C8. A newly constructed \<open>WorkerThread\<close> has an empty job slot (\<open>None\<close>), its lock
  is in the locked state (no job pending), and its thread has been started with the
  daemon flag set. The constructor leaves the idle registry as it was. When
  \<open>thread.start()\<close> raises, the constructor raises that exception and there is no new
  worker; only the name has been taken from \<open>name_counter\<close>.
\<close>

theorem WorkerThread_init_state:
  "(let (r, s') = WorkerThread_init None s; self = length (workers s)
    in r = Inr self \<and>
       length (workers s') = Suc (length (workers s)) \<and>
       job (workers s' ! self) = None \<and>
       worker_lock (workers s' ! self) = Locked \<and>
       daemon (thread (workers s' ! self)) \<and>
       started (thread (workers s' ! self)) \<and>
       name (thread (workers s' ! self)) = ''Trio worker thread '' @ str_nat (name_counter s) \<and>
       idle_workers s' = idle_workers s) \<and>
   WorkerThread_init (Some e) s = (Inl e, s\<lparr>name_counter := Suc (name_counter s)\<rparr>)"
  by (simp add: WorkerThread_init_def Let_def emit_def lock_defs)

section \<open>The idle registry is last-in, first-out\<close>





section \<open>The wait that times out\<close>

text \<open>
  Claim C3. \<open>IDLE_TIMEOUT\<close> is 10 seconds. In every run: when the bounded wait of a
  worker times out (its lock is still locked), the worker goes on to line 88 to remove
  itself from the idle registry. When it gets there and its key is in the registry, the
  key is removed, \<open>_work\<close> returns and the thread has ended: it has no further step.
  When its key is not in the registry, nothing changes, the thread does not end and is
  back at the wait of line 80, and a job is on its way to it. To a worker that has
  exited no job is on its way, and it is not in the registry.
\<close>

theorem timed_out_wait:
  assumes "run sched init_config = Some c" and "w < length (wpcs c)"
  shows "IDLE_TIMEOUT = 10 \<and>
    (wpcs c ! w = W_acquire \<and> worker_lock (workers (shared c) ! w) = Locked \<longrightarrow>
       timeout_step w c = Some (c\<lparr>wpcs := (wpcs c)[w := W_del_idle]\<rparr>)) \<and>
    (wpcs c ! w = W_del_idle \<longrightarrow>
       (if w \<in> set (idle_workers (shared c))
        then work_body w False rep (shared c) =
               Return (emit (Ev_unregistered w)
                 ((shared c)\<lparr>idle_workers := removeAll w (idle_workers (shared c))\<rparr>)) \<and>
             (\<exists>c2. worker_step w c = Some c2 \<and> wpcs c2 ! w = W_exited \<and>
                 idle_workers (shared c2) = removeAll w (idle_workers (shared c)) \<and>
                 w \<notin> set (idle_workers (shared c2)) \<and>
                 worker_step w c2 = None \<and> timeout_step w c2 = None)
        else work_body w False rep (shared c) = Continue (shared c) \<and>
             (\<exists>c2. worker_step w c = Some c2 \<and> wpcs c2 ! w = W_acquire \<and>
                 shared c2 = shared c) \<and>
             job_coming c w)) \<and>
    (wpcs c ! w = W_exited \<longrightarrow>
       w \<notin> set (idle_workers (shared c)) \<and> \<not> job_coming c w \<and>
       worker_step w c = None \<and> timeout_step w c = None)"
proof (intro conjI impI)
  show "IDLE_TIMEOUT = 10" by (simp add: IDLE_TIMEOUT_def)
next
  assume "wpcs c ! w = W_acquire \<and> worker_lock (workers (shared c) ! w) = Locked"
  with assms(2) show "timeout_step w c = Some (c\<lparr>wpcs := (wpcs c)[w := W_del_idle]\<rparr>)"
    by (simp add: timeout_step_locked)
next
  assume d: "wpcs c ! w = W_del_idle"
  from assms(1) have safe: "safe c" by (rule run_safe)
  show "if w \<in> set (idle_workers (shared c))
        then work_body w False rep (shared c) =
               Return (emit (Ev_unregistered w)
                 ((shared c)\<lparr>idle_workers := removeAll w (idle_workers (shared c))\<rparr>)) \<and>
             (\<exists>c2. worker_step w c = Some c2 \<and> wpcs c2 ! w = W_exited \<and>
                 idle_workers (shared c2) = removeAll w (idle_workers (shared c)) \<and>
                 w \<notin> set (idle_workers (shared c2)) \<and>
                 worker_step w c2 = None \<and> timeout_step w c2 = None)
        else work_body w False rep (shared c) = Continue (shared c) \<and>
             (\<exists>c2. worker_step w c = Some c2 \<and> wpcs c2 ! w = W_acquire \<and>
                 shared c2 = shared c) \<and>
             job_coming c w"
  proof (cases "w \<in> set (idle_workers (shared c))")
    case True
    from del_step_present [OF assms(2) d True] True show ?thesis
      by (auto simp: work_body_def del_idle_present)
  next
    case False
    from d have "parked (wpcs c ! w)" by simp
    from safe_parked_absent [OF safe assms(2) this False]
      del_step_absent [OF assms(2) d False] False
    show ?thesis
      by (simp add: work_body_def del_idle_absent)
  qed
next
  assume e: "wpcs c ! w = W_exited"
  from assms(1) have safe: "safe c" by (rule run_safe)
  from e have np: "\<not> parked (wpcs c ! w)" by simp
  from safe_busy [OF safe assms(2) np]
  show "w \<notin> set (idle_workers (shared c))" and "\<not> job_coming c w"
    by simp_all
  from e assms(2) show "worker_step w c = None" and "timeout_step w c = None"
    by (simp_all add: worker_step_simps timeout_step_simps)
qed

theorem timed_out_wait_witness:
  "(\<exists>c. run idle_schedule init_config = Some c \<and> 0 < length (wpcs c) \<and>
      wpcs c ! 0 = W_acquire \<and> worker_lock (workers (shared c) ! 0) = Locked \<and>
      timeout_step 0 c = Some (c\<lparr>wpcs := (wpcs c)[0 := W_del_idle]\<rparr>)) \<and>
   (\<exists>c. run timeout_schedule init_config = Some c \<and> 0 < length (wpcs c) \<and>
      wpcs c ! 0 = W_del_idle \<and> 0 \<in> set (idle_workers (shared c)) \<and>
      (\<exists>c2. worker_step 0 c = Some c2 \<and> wpcs c2 ! 0 = W_exited \<and>
          0 \<notin> set (idle_workers (shared c2)) \<and> worker_step 0 c2 = None)) \<and>
   (\<exists>c. run timeout_race_schedule init_config = Some c \<and> 0 < length (wpcs c) \<and>
      wpcs c ! 0 = W_del_idle \<and> 0 \<notin> set (idle_workers (shared c)) \<and>
      (\<exists>c2. worker_step 0 c = Some c2 \<and> wpcs c2 ! 0 = W_acquire \<and>
          shared c2 = shared c) \<and>
      job_coming c 0)"
proof (intro conjI)
  have p: "0 < length (wpcs idle_config)" "wpcs idle_config ! 0 = W_acquire"
    "worker_lock (workers (shared idle_config) ! 0) = Locked"
    by (simp_all add: idle_config_def idle_state_def)
  from timed_out_wait [OF idle_run p(1)] p
  have "timeout_step 0 idle_config =
      Some (idle_config\<lparr>wpcs := (wpcs idle_config)[0 := W_del_idle]\<rparr>)"
    by blast
  with idle_run p show "\<exists>c. run idle_schedule init_config = Some c \<and> 0 < length (wpcs c) \<and>
      wpcs c ! 0 = W_acquire \<and> worker_lock (workers (shared c) ! 0) = Locked \<and>
      timeout_step 0 c = Some (c\<lparr>wpcs := (wpcs c)[0 := W_del_idle]\<rparr>)"
    by blast
next
  obtain c where r: "run timeout_schedule init_config = Some c"
    and p: "0 < length (wpcs c)" "wpcs c ! 0 = W_del_idle"
      "0 \<in> set (idle_workers (shared c))"
    by (simp add: timeout_run)
  from timed_out_wait [OF r p(1)] p
  have "\<exists>c2. worker_step 0 c = Some c2 \<and> wpcs c2 ! 0 = W_exited \<and>
          0 \<notin> set (idle_workers (shared c2)) \<and> worker_step 0 c2 = None"
    by auto
  with r p show "\<exists>c. run timeout_schedule init_config = Some c \<and> 0 < length (wpcs c) \<and>
      wpcs c ! 0 = W_del_idle \<and> 0 \<in> set (idle_workers (shared c)) \<and>
      (\<exists>c2. worker_step 0 c = Some c2 \<and> wpcs c2 ! 0 = W_exited \<and>
          0 \<notin> set (idle_workers (shared c2)) \<and> worker_step 0 c2 = None)"
    by blast
next
  obtain c where r: "run timeout_race_schedule init_config = Some c"
    and p: "0 < length (wpcs c)" "wpcs c ! 0 = W_del_idle"
      "0 \<notin> set (idle_workers (shared c))"
    by (simp add: timeout_race_run)
  from timed_out_wait [OF r p(1)] p
  have "(\<exists>c2. worker_step 0 c = Some c2 \<and> wpcs c2 ! 0 = W_acquire \<and>
          shared c2 = shared c) \<and> job_coming c 0"
    by auto
  with r p show "\<exists>c. run timeout_race_schedule init_config = Some c \<and>
      0 < length (wpcs c) \<and>
      wpcs c ! 0 = W_del_idle \<and> 0 \<notin> set (idle_workers (shared c)) \<and>
      (\<exists>c2. worker_step 0 c = Some c2 \<and> wpcs c2 ! 0 = W_acquire \<and>
          shared c2 = shared c) \<and>
      job_coming c 0"
    by blast
qed

section \<open>Assigning a job\<close>

lemma start_thread_soon_general:
  assumes "\<forall>w\<in>set (idle_workers s).
             w < length (workers s) \<and> worker_lock (workers s ! w) = Locked"
  shows "(case pop_or_spawn start_error s of
       (Inl e, s1) \<Rightarrow>
         idle_workers s = [] \<and> start_error = Some e \<and>
         s1 = s\<lparr>name_counter := Suc (name_counter s)\<rparr> \<and>
         start_thread_soon start_error fn deliver s = (Some e, s1)
     | (Inr worker, s1) \<Rightarrow>
         (if idle_workers s = []
          then start_error = None \<and> worker = length (workers s) \<and> idle_workers s1 = [] \<and>
               length (workers s1) = Suc (length (workers s)) \<and>
               trace s1 = trace s @ [Ev_spawned worker]
          else worker = last (idle_workers s) \<and>
               idle_workers s1 = butlast (idle_workers s) \<and>
               workers s1 = workers s \<and>
               trace s1 = trace s @ [Ev_popped worker]) \<and>
         job (workers (set_job worker fn deliver s1) ! worker) = Some (fn, deliver) \<and>
         worker_lock (workers (set_job worker fn deliver s1) ! worker) = Locked \<and>
         (\<exists>s3. start_thread_soon start_error fn deliver s = (None, s3) \<and>
            job (workers s3 ! worker) = Some (fn, deliver) \<and>
            worker_lock (workers s3 ! worker) = Unlocked \<and>
            idle_workers s3 = idle_workers s1 \<and>
            length (workers s3) = length (workers s1) \<and>
            trace s3 = trace s1 @ [Ev_job_set worker, Ev_released worker]))"
proof (cases "idle_workers s = []")
  case True
  show ?thesis
  proof (cases start_error)
    case None
    with True show ?thesis
      by (simp add: start_thread_soon_def pop_or_spawn_empty WorkerThread_init_simps Let_def
          set_job_def release_def emit_def lock_defs nth_append)
  next
    case (Some e)
    with True show ?thesis
      by (simp add: start_thread_soon_def pop_or_spawn_empty WorkerThread_init_simps)
  qed
next
  case False
  then have "last (idle_workers s) \<in> set (idle_workers s)" by simp
  with assms have l: "last (idle_workers s) < length (workers s)"
      "worker_lock (workers s ! last (idle_workers s)) = Locked"
    by blast+
  with False show ?thesis
    by (simp add: start_thread_soon_def pop_or_spawn_nonempty Let_def
        set_job_def release_def emit_def lock_defs)
qed

text \<open>
  Claim C4, as stated, on a new cache while the operating system gives no thread. The
  registry is empty, so \<open>start_thread_soon\<close> constructs a worker; \<open>thread.start()\<close>
  raises, and so does \<open>start_thread_soon\<close>: no worker has been constructed or chosen,
  and the job has been written nowhere.
\<close>

theorem start_thread_soon_no_thread:
  "idle_workers (shared (init_config :: int config)) = [] \<and>
   start_thread_soon (Some no_thread) returns_seven deliver_ok (shared init_config) =
     (Some no_thread,
      \<lparr>idle_workers = [], workers = [], name_counter = 1, stderr = [], trace = []\<rparr>) \<and>
   run refused_schedule init_config =
     Some \<lparr>shared =
        \<lparr>idle_workers = [], workers = [], name_counter = 1, stderr = [], trace = []\<rparr>,
        wpcs = [],
        cpcs = [C_raised no_thread]\<rparr>"
  by (simp add: refused_run)
    (simp add: init_config_def ThreadCache_init_def start_thread_soon_def pop_or_spawn_empty
      WorkerThread_init_simps)

text \<open>
  Claim C4, amended. In the state \<open>s\<close> reached by any run, \<open>start_thread_soon\<close> first
  pops the idle registry. If the registry holds a worker, the most recently added one is
  taken out and used, and no worker is constructed. Otherwise a new worker is
  constructed, and the registry stays empty; unless the thread of the new worker cannot
  be started: then \<open>start_thread_soon\<close> raises the exception of \<open>thread.start()\<close>,
  with no worker constructed or chosen and no job slot written. Whenever a worker has
  been chosen, its job slot holds \<open>(fn, deliver)\<close> while its lock is still locked, and
  only then the lock is released: the call returns normally, with the job in the slot
  and the lock free.
\<close>

theorem start_thread_soon_assigns:
  assumes "run sched init_config = Some c" and "s = shared c"
  shows "(case pop_or_spawn start_error s of
       (Inl e, s1) \<Rightarrow>
         idle_workers s = [] \<and> start_error = Some e \<and>
         s1 = s\<lparr>name_counter := Suc (name_counter s)\<rparr> \<and>
         start_thread_soon start_error fn deliver s = (Some e, s1)
     | (Inr worker, s1) \<Rightarrow>
         (if idle_workers s = []
          then start_error = None \<and> worker = length (workers s) \<and> idle_workers s1 = [] \<and>
               length (workers s1) = Suc (length (workers s)) \<and>
               trace s1 = trace s @ [Ev_spawned worker]
          else worker = last (idle_workers s) \<and>
               idle_workers s1 = butlast (idle_workers s) \<and>
               workers s1 = workers s \<and>
               trace s1 = trace s @ [Ev_popped worker]) \<and>
         job (workers (set_job worker fn deliver s1) ! worker) = Some (fn, deliver) \<and>
         worker_lock (workers (set_job worker fn deliver s1) ! worker) = Locked \<and>
         (\<exists>s3. start_thread_soon start_error fn deliver s = (None, s3) \<and>
            job (workers s3 ! worker) = Some (fn, deliver) \<and>
            worker_lock (workers s3 ! worker) = Unlocked \<and>
            idle_workers s3 = idle_workers s1 \<and>
            length (workers s3) = length (workers s1) \<and>
            trace s3 = trace s1 @ [Ev_job_set worker, Ev_released worker]))"
proof -
  from assms(1) have "safe c" by (rule run_safe)
  then have "\<forall>w\<in>set (idle_workers s).
      w < length (workers s) \<and> worker_lock (workers s ! w) = Locked"
    unfolding assms(2) by (blast intro: safe_registry)
  then show ?thesis
    by (rule start_thread_soon_general)
qed

theorem start_thread_soon_assigns_witness:
  "run idle_schedule init_config = Some idle_config \<and>
   idle_state = shared idle_config \<and>
   idle_workers idle_state = [0] \<and>
   (\<exists>s3. start_thread_soon (Some no_thread) returns_seven deliver_ok idle_state = (None, s3) \<and>
      job (workers s3 ! 0) = Some (returns_seven, deliver_ok) \<and>
      worker_lock (workers s3 ! 0) = Unlocked \<and>
      idle_workers s3 = [] \<and>
      length (workers s3) = 1 \<and>
      trace s3 = trace idle_state @ [Ev_popped 0, Ev_job_set 0, Ev_released 0]) \<and>
   (\<exists>s3. start_thread_soon None returns_seven deliver_ok (shared init_config) = (None, s3) \<and>
      job (workers s3 ! 0) = Some (returns_seven, deliver_ok) \<and>
      worker_lock (workers s3 ! 0) = Unlocked \<and>
      idle_workers s3 = [] \<and>
      length (workers s3) = 1 \<and>
      trace s3 = [Ev_spawned 0, Ev_job_set 0, Ev_released 0]) \<and>
   start_thread_soon (Some no_thread) returns_seven deliver_ok
       (shared (init_config :: int config)) =
     (Some no_thread, (shared init_config)\<lparr>name_counter := 1\<rparr>)"
proof -
  have h: "idle_state = shared idle_config"
    by (simp add: idle_config_def)
  have i: "idle_workers idle_state = [0]"
    by (simp add: idle_state_def)
  have p: "pop_or_spawn (Some no_thread) idle_state =
      (Inr 0, emit (Ev_popped 0) (idle_state\<lparr>idle_workers := []\<rparr>))"
    by (simp add: pop_or_spawn_nonempty i)
  have n: "length (workers idle_state) = 1"
    by (simp add: idle_state_def)
  from start_thread_soon_assigns [OF idle_run h, of "Some no_thread" returns_seven deliver_ok] i n
  have a: "\<exists>s3. start_thread_soon (Some no_thread) returns_seven deliver_ok idle_state =
        (None, s3) \<and>
      job (workers s3 ! 0) = Some (returns_seven, deliver_ok) \<and>
      worker_lock (workers s3 ! 0) = Unlocked \<and>
      idle_workers s3 = [] \<and>
      length (workers s3) = 1 \<and>
      trace s3 = trace idle_state @ [Ev_popped 0, Ev_job_set 0, Ev_released 0]"
    by (auto simp: p emit_def)
  have r0: "run [] init_config = Some (init_config :: int config)"
    by simp
  have e: "idle_workers (shared (init_config :: int config)) = []"
    "workers (shared (init_config :: int config)) = []"
    "trace (shared (init_config :: int config)) = []"
    "name_counter (shared (init_config :: int config)) = 0"
    by (simp_all add: init_config_def ThreadCache_init_def)
  have q: "pop_or_spawn None (shared (init_config :: int config)) =
      (Inr 0, snd (WorkerThread_init None (shared init_config)))"
    by (simp add: pop_or_spawn_empty e WorkerThread_init_simps)
  from start_thread_soon_assigns [OF r0 refl, of None returns_seven deliver_ok] e
  have b: "\<exists>s3. start_thread_soon None returns_seven deliver_ok (shared init_config) =
        (None, s3) \<and>
      job (workers s3 ! 0) = Some (returns_seven, deliver_ok) \<and>
      worker_lock (workers s3 ! 0) = Unlocked \<and>
      idle_workers s3 = [] \<and>
      length (workers s3) = 1 \<and>
      trace s3 = [Ev_spawned 0, Ev_job_set 0, Ev_released 0]"
    by (auto simp: q)
  have q': "pop_or_spawn (Some no_thread) (shared (init_config :: int config)) =
      (Inl no_thread, (shared init_config)\<lparr>name_counter := 1\<rparr>)"
    by (simp add: pop_or_spawn_empty e WorkerThread_init_simps)
  from start_thread_soon_assigns [OF r0 refl, of "Some no_thread" returns_seven deliver_ok]
  have d: "start_thread_soon (Some no_thread) returns_seven deliver_ok
       (shared (init_config :: int config)) =
     (Some no_thread, (shared init_config)\<lparr>name_counter := 1\<rparr>)"
    by (simp add: q')
  from idle_run h i a b d show ?thesis
    by blast
qed

section \<open>What \<open>deliver\<close> receives\<close>

lemma work_body_job:
  assumes "self < length (workers s)" and "job (workers s ! self) = Some (fn, deliver)"
  shows "\<exists>s'. work_body self True Report_written s = Continue s' \<and>
     trace s' = trace s @
       [Ev_ran self fn deliver (case fn () of Inr v \<Rightarrow> Value v | Inl e \<Rightarrow> Error e),
        Ev_registered self,
        Ev_deliver_called self fn deliver (case fn () of Inr v \<Rightarrow> Value v | Inl e \<Rightarrow> Error e)] \<and>
     stderr s' =
       (case deliver (case fn () of Inr v \<Rightarrow> Value v | Inl e \<Rightarrow> Error e) of
          Inr _ \<Rightarrow> stderr s
        | Inl e \<Rightarrow> stderr s @
            [Line ''Exception while delivering result of thread'', Traceback e])"
proof -
  let ?s0 = "lock_worker self s"
  let ?s3 = "register_idle self
      (emit (Ev_ran self fn deliver (capture fn))
         (?s0\<lparr>workers := (workers ?s0)[self := (workers ?s0 ! self)\<lparr>job := None\<rparr>]\<rparr>))"
  let ?r = "call_deliver self fn deliver (capture fn) Report_written ?s3"
  have j: "job (workers ?s0 ! self) = Some (fn, deliver)"
    using assms by (simp add: lock_worker_simps)
  have "work_body self True Report_written s = Continue (snd ?r)"
    by (simp add: work_body_def handle_job_Some [OF j] call_deliver_returns)
  moreover have "trace (snd ?r) = trace s @
       [Ev_ran self fn deliver (capture fn), Ev_registered self,
        Ev_deliver_called self fn deliver (capture fn)]"
    by (simp add: call_deliver_simps register_idle_simps emit_def lock_worker_simps)
  moreover have "stderr (snd ?r) =
       (case deliver (capture fn) of
          Inr _ \<Rightarrow> stderr s
        | Inl e \<Rightarrow> stderr s @
            [Line ''Exception while delivering result of thread'', Traceback e])"
    by (simp add: call_deliver_simps register_idle_simps emit_def lock_worker_simps
        split: sum.split)
  ultimately show ?thesis
    unfolding capture_def by blast
qed

lemma work_body_any_report:
  assumes "self < length (workers s)" and "job (workers s ! self) = Some (fn, deliver)"
  shows "\<exists>s''. trace s'' = trace s @
       [Ev_ran self fn deliver (case fn () of Inr v \<Rightarrow> Value v | Inl e \<Rightarrow> Error e),
        Ev_registered self,
        Ev_deliver_called self fn deliver (case fn () of Inr v \<Rightarrow> Value v | Inl e \<Rightarrow> Error e)] \<and>
     (work_body self True rep s = Continue s'' \<or>
      (\<exists>e e'. deliver (case fn () of Inr v \<Rightarrow> Value v | Inl e \<Rightarrow> Error e) = Inl e \<and>
         (rep = Print_raises e' \<or> rep = Print_exception_raises e') \<and>
         work_body self True rep s = Uncaught e' s''))"
proof -
  let ?s0 = "lock_worker self s"
  let ?s3 = "register_idle self
      (emit (Ev_ran self fn deliver (capture fn))
         (?s0\<lparr>workers := (workers ?s0)[self := (workers ?s0 ! self)\<lparr>job := None\<rparr>]\<rparr>))"
  let ?r = "call_deliver self fn deliver (capture fn) rep ?s3"
  have j: "job (workers ?s0 ! self) = Some (fn, deliver)"
    using assms by (simp add: lock_worker_simps)
  have t: "trace (snd ?r) = trace s @
       [Ev_ran self fn deliver (capture fn), Ev_registered self,
        Ev_deliver_called self fn deliver (capture fn)]"
    by (simp add: call_deliver_simps register_idle_simps emit_def lock_worker_simps)
  have w: "work_body self True rep s =
      (case fst ?r of None \<Rightarrow> Continue (snd ?r) | Some e \<Rightarrow> Uncaught e (snd ?r))"
    by (simp add: work_body_def handle_job_Some [OF j] split: prod.splits option.splits)
  have "work_body self True rep s = Continue (snd ?r) \<or>
      (\<exists>e e'. deliver (capture fn) = Inl e \<and>
         (rep = Print_raises e' \<or> rep = Print_exception_raises e') \<and>
         work_body self True rep s = Uncaught e' (snd ?r))"
    unfolding w call_deliver_fst
    by (cases "deliver (capture fn)"; cases rep) simp_all
  with t show ?thesis
    unfolding capture_def by blast
qed

text \<open>
  Claim C6. In every run, when the lock of a worker has been released, so that its wait
  of line 80 succeeds, there is a job \<open>(fn, deliver)\<close> in its slot, and the turn of the
  loop that handles it ends normally and the loop goes on: no exception of \<open>fn\<close> leaves
  it. \<open>deliver\<close> is called once, with \<open>Value v\<close> when \<open>fn\<close> returned \<open>v\<close> and with
  \<open>Error e\<close> when \<open>fn\<close> raised \<open>e\<close>. Nothing is written to standard error unless
  \<open>deliver\<close> itself raises. Whatever becomes of the writes to standard error,
  \<open>deliver\<close> is called with that same value, and the only exception that can leave the
  loop is the one raised by a write, after a \<open>deliver\<close> that raised.
\<close>

theorem work_outcome:
  assumes "run sched init_config = Some c" and "self < length (wpcs c)"
    and "worker_lock (workers (shared c) ! self) = Unlocked"
  shows "\<exists>fn deliver s'.
     job (workers (shared c) ! self) = Some (fn, deliver) \<and>
     work_body self True Report_written (shared c) = Continue s' \<and>
     trace s' = trace (shared c) @
       [Ev_ran self fn deliver (case fn () of Inr v \<Rightarrow> Value v | Inl e \<Rightarrow> Error e),
        Ev_registered self,
        Ev_deliver_called self fn deliver (case fn () of Inr v \<Rightarrow> Value v | Inl e \<Rightarrow> Error e)] \<and>
     stderr s' =
       (case deliver (case fn () of Inr v \<Rightarrow> Value v | Inl e \<Rightarrow> Error e) of
          Inr _ \<Rightarrow> stderr (shared c)
        | Inl e \<Rightarrow> stderr (shared c) @
            [Line ''Exception while delivering result of thread'', Traceback e]) \<and>
     (\<forall>rep. \<exists>s''. trace s'' = trace s' \<and>
        (work_body self True rep (shared c) = Continue s'' \<or>
         (\<exists>e e'. deliver (case fn () of Inr v \<Rightarrow> Value v | Inl e \<Rightarrow> Error e) = Inl e \<and>
            (rep = Print_raises e' \<or> rep = Print_exception_raises e') \<and>
            work_body self True rep (shared c) = Uncaught e' s'')))"
proof -
  from assms(1) have safe: "safe c" by (rule run_safe)
  from safe_D(1) [OF safe] assms(2) have w: "self < length (workers (shared c))"
    by simp
  from safe_unlocked(1) [OF safe assms(2,3)] obtain fn deliver
    where j: "job (workers (shared c) ! self) = Some (fn, deliver)"
    by auto
  from work_body_job [OF w j] obtain s'
    where b: "work_body self True Report_written (shared c) = Continue s'"
      and t: "trace s' = trace (shared c) @
       [Ev_ran self fn deliver (case fn () of Inr v \<Rightarrow> Value v | Inl e \<Rightarrow> Error e),
        Ev_registered self,
        Ev_deliver_called self fn deliver (case fn () of Inr v \<Rightarrow> Value v | Inl e \<Rightarrow> Error e)]"
      and d: "stderr s' =
       (case deliver (case fn () of Inr v \<Rightarrow> Value v | Inl e \<Rightarrow> Error e) of
          Inr _ \<Rightarrow> stderr (shared c)
        | Inl e \<Rightarrow> stderr (shared c) @
            [Line ''Exception while delivering result of thread'', Traceback e])"
    by blast
  have "\<exists>s''. trace s'' = trace s' \<and>
        (work_body self True rep (shared c) = Continue s'' \<or>
         (\<exists>e e'. deliver (case fn () of Inr v \<Rightarrow> Value v | Inl e \<Rightarrow> Error e) = Inl e \<and>
            (rep = Print_raises e' \<or> rep = Print_exception_raises e') \<and>
            work_body self True rep (shared c) = Uncaught e' s''))" for rep
    using work_body_any_report [OF w j, of rep] unfolding t by blast
  with j b t d show ?thesis
    by blast
qed

theorem work_outcome_witness:
  "\<exists>c. run failing_schedule init_config = Some c \<and> 0 < length (wpcs c) \<and>
      worker_lock (workers (shared c) ! 0) = Unlocked \<and>
      job (workers (shared c) ! 0) = Some (raises_value_error, deliver_ok) \<and>
      (\<exists>s'. work_body 0 True Report_written (shared c) = Continue s' \<and>
         trace s' = trace (shared c) @
           [Ev_ran 0 raises_value_error deliver_ok (Error (ValueError ''bad input'')), Ev_registered 0,
            Ev_deliver_called 0 raises_value_error deliver_ok
              (Error (ValueError ''bad input''))] \<and>
         stderr s' = [])"
proof -
  obtain c where r: "run failing_schedule init_config = Some c"
    and h: "0 < length (wpcs c)" "worker_lock (workers (shared c) ! 0) = Unlocked"
    and j: "job (workers (shared c) ! 0) = Some (raises_value_error, deliver_ok)"
    and e: "stderr (shared c) = []"
    by (simp add: failing_run failing_state_def)
  from work_outcome [OF r h] obtain fn deliver s'
    where j': "job (workers (shared c) ! 0) = Some (fn, deliver)"
      and w: "work_body 0 True Report_written (shared c) = Continue s'"
      and t: "trace s' = trace (shared c) @
         [Ev_ran 0 fn deliver (case fn () of Inr v \<Rightarrow> Value v | Inl e \<Rightarrow> Error e),
          Ev_registered 0,
          Ev_deliver_called 0 fn deliver (case fn () of Inr v \<Rightarrow> Value v | Inl e \<Rightarrow> Error e)]"
      and d: "stderr s' =
         (case deliver (case fn () of Inr v \<Rightarrow> Value v | Inl e \<Rightarrow> Error e) of
            Inr _ \<Rightarrow> stderr (shared c)
          | Inl e \<Rightarrow> stderr (shared c) @
              [Line ''Exception while delivering result of thread'', Traceback e])"
    by blast
  from j j' have f: "fn = raises_value_error" "deliver = deliver_ok"
    by simp_all
  from t have t': "trace s' = trace (shared c) @
      [Ev_ran 0 raises_value_error deliver_ok (Error (ValueError ''bad input'')), Ev_registered 0,
       Ev_deliver_called 0 raises_value_error deliver_ok
              (Error (ValueError ''bad input''))]"
    by (simp add: f raises_value_error_def)
  from d e have d': "stderr s' = []"
    by (simp add: f deliver_ok_def)
  from r h j w t' d' show ?thesis
    by blast
qed

section \<open>A \<open>deliver\<close> that raises\<close>





section \<open>Entry points called outside a run\<close>

text \<open>
  Claim C9. With no active runner in the global run context, each of the six entry
  points \<open>current_kqueue\<close>, \<open>monitor_kevent\<close>, \<open>wait_kevent\<close>, \<open>wait_readable\<close>,
  \<open>wait_writable\<close> and \<open>notify_closing\<close> raises
  \<open>RuntimeError("must be called from async context")\<close>, whatever its arguments: it
  neither returns a value nor raises an error of another class.
\<close>

theorem kqueue_outside_run:
  assumes "runner ctx = None"
  shows "current_kqueue ctx = Inl (RuntimeError ''must be called from async context'') \<and>
    monitor_kevent ctx ident filter' =
      Inl (RuntimeError ''must be called from async context'') \<and>
    wait_kevent ctx ident filter' abort_func =
      Inl (RuntimeError ''must be called from async context'') \<and>
    wait_readable ctx fd = Inl (RuntimeError ''must be called from async context'') \<and>
    wait_writable ctx fd = Inl (RuntimeError ''must be called from async context'') \<and>
    notify_closing ctx fd = Inl (RuntimeError ''must be called from async context'')"
  using assms
  by (simp add: current_kqueue_def monitor_kevent_def wait_kevent_def wait_readable_def
      wait_writable_def notify_closing_def get_runner_def except_AttributeError_def)

theorem kqueue_outside_run_witness:
  "runner no_run = None \<and>
   current_kqueue no_run = Inl (RuntimeError ''must be called from async context'') \<and>
   monitor_kevent no_run 3 (-1) = Inl (RuntimeError ''must be called from async context'') \<and>
   wait_kevent no_run 3 (-1) 0 = Inl (RuntimeError ''must be called from async context'') \<and>
   wait_readable no_run 3 = Inl (RuntimeError ''must be called from async context'') \<and>
   wait_writable no_run 3 = Inl (RuntimeError ''must be called from async context'') \<and>
   notify_closing no_run 3 = Inl (RuntimeError ''must be called from async context'')"
proof -
  have h: "runner no_run = None"
    by (simp add: no_run_def)
  from kqueue_outside_run [OF h, of 3 "-1" 0 3] h show ?thesis
    by simp
qed

section \<open>A sequence point is claimed once\<close>

lemma claimed_point: "claimed (snd (point k s)) = claimed s"
  by (simp add: point_def split: option.split)

lemma claimed_enter: "claimed s \<subseteq> claimed (snd (enter position s))"
  by (auto simp: enter_def Let_def claimed_point)

lemma claimed_wake: "claimed (snd (wake position cancelled s)) = claimed s"
  by (simp add: wake_def claimed_point)

lemma claimed_leave: "claimed (leave position s) = claimed s"
  by (simp add: leave_def Let_def claimed_point)

lemma claimed_seq_apply: "claimed s \<subseteq> claimed (seq_apply x s)"
  using claimed_enter by (cases x) (simp_all add: claimed_wake claimed_leave)

lemma claimed_seq_run: "claimed s \<subseteq> claimed (seq_run xs s)"
proof (induction xs arbitrary: s)
  case Nil
  show ?case by simp
next
  case (Cons x xs)
  have "claimed s \<subseteq> claimed (seq_apply x s)"
    by (rule claimed_seq_apply)
  also have "\<dots> \<subseteq> claimed (seq_run xs (seq_apply x s))"
    by (rule Cons.IH)
  finally show ?case by simp
qed

lemma enter_claims:
  "fst (enter position s) = Waiting \<or> fst (enter position s) = Running \<Longrightarrow>
   position \<in> claimed (snd (enter position s))"
  by (auto simp: enter_def Let_def claimed_point split: if_splits)

text \<open>
  Claim C10. A call with a position that is already claimed raises \<open>RuntimeError\<close> at
  once: the sequencer is left as it was, and the task neither waits nor runs the guarded
  block. A position that a call has claimed (the call went on to wait or to run its
  block) stays claimed whatever is done with the sequencer afterwards, so every later
  call with this position raises in this way.
\<close>

theorem sequencer_reuse:
  "(position \<in> claimed s \<longrightarrow>
      enter position s =
        (Raised (RuntimeError (''Attempted to re-use sequence point '' @ str_int position)),
         s)) \<and>
   (fst (enter position s) = Waiting \<or> fst (enter position s) = Running \<longrightarrow>
      enter position (seq_run ops (snd (enter position s))) =
        (Raised (RuntimeError (''Attempted to re-use sequence point '' @ str_int position)),
         seq_run ops (snd (enter position s))))"
proof (intro conjI impI)
  assume "position \<in> claimed s"
  then show "enter position s =
      (Raised (RuntimeError (''Attempted to re-use sequence point '' @ str_int position)), s)"
    by (simp add: enter_def)
next
  assume "fst (enter position s) = Waiting \<or> fst (enter position s) = Running"
  then have "position \<in> claimed (snd (enter position s))"
    by (rule enter_claims)
  with claimed_seq_run have "position \<in> claimed (seq_run ops (snd (enter position s)))"
    by blast
  then show "enter position (seq_run ops (snd (enter position s))) =
      (Raised (RuntimeError (''Attempted to re-use sequence point '' @ str_int position)),
       seq_run ops (snd (enter position s)))"
    by (simp add: enter_def)
qed

theorem sequencer_reuse_witness:
  "fst (enter 2 Sequencer_init) = Waiting \<and>
   2 \<in> claimed (snd (enter 2 Sequencer_init)) \<and>
   enter 2 (snd (enter 2 Sequencer_init)) =
     (Raised (RuntimeError ''Attempted to re-use sequence point 2''),
      snd (enter 2 Sequencer_init)) \<and>
   enter 2 (seq_run [Enter 0, Leave 0, Enter 1, Wake 1 False, Leave 1, Wake 2 False]
              (snd (enter 2 Sequencer_init))) =
     (Raised (RuntimeError ''Attempted to re-use sequence point 2''),
      seq_run [Enter 0, Leave 0, Enter 1, Wake 1 False, Leave 1, Wake 2 False]
        (snd (enter 2 Sequencer_init)))"
proof -
  have w: "fst (enter 2 Sequencer_init) = Waiting"
    by (simp add: enter_def Sequencer_init_def Let_def)
  have c: "2 \<in> claimed (snd (enter 2 Sequencer_init))"
    by (simp add: enter_def Sequencer_init_def Let_def claimed_point)
  have n: "str_int 2 = ''2''"
    by (simp add: str_int_def str_nat.simps)
  from sequencer_reuse [of 2 "snd (enter 2 Sequencer_init)"
      "[Enter 0, Leave 0, Enter 1, Wake 1 False, Leave 1, Wake 2 False]"]
    sequencer_reuse [of 2 Sequencer_init
      "[Enter 0, Leave 0, Enter 1, Wake 1 False, Leave 1, Wake 2 False]"]
    w c n
  show ?thesis
    by simp
qed

section \<open>Registering as idle comes before \<open>deliver\<close>\<close>

lemma own_events_snoc:
  "own_events w (tr @ [e]) = (if by_worker e = Some w then own_events w tr @ [e] else own_events w tr)"
  by (simp add: own_events_def)

lemma phase_of_snoc:
  "phase_of w (tr @ [e]) =
     (if by_worker e = Some w then next_phase (phase_of w tr) e else phase_of w tr)"
  by (simp add: phase_of_def own_events_snoc)

lemma phase_of_Nil: "phase_of w [] = Between"
  by (simp add: phase_of_def own_events_def)

lemma in_phase_init: "in_phase init_config"
  by (simp add: in_phase_def init_config_def ThreadCache_init_def phase_of_Nil)

lemma in_phase_D:
  "in_phase c \<Longrightarrow>
   phase_of w (trace (shared c)) =
     (if w < length (wpcs c) then pc_phase (wpcs c ! w) else Between)"
  by (simp add: in_phase_def)

lemma in_phase_timeout:
  assumes "in_phase c" and "timeout_step w c = Some c'"
  shows "in_phase c'"
  unfolding in_phase_def
proof
  fix v
  from assms(2) have w: "w < length (wpcs c)"
    by (cases "w < length (wpcs c)") (simp_all add: timeout_step_simps)
  from assms(2) w have a: "wpcs c ! w = W_acquire"
    and c': "c' = c\<lparr>wpcs := (wpcs c)[w := W_del_idle]\<rparr>"
    by (auto simp: timeout_step_simps split: if_splits)
  show "phase_of v (trace (shared c')) =
      (if v < length (wpcs c') then pc_phase (wpcs c' ! v) else Between)"
    using in_phase_D [OF assms(1), of v] w a
    by (cases "v = w") (simp_all add: c')
qed

lemma in_phase_worker:
  assumes "in_phase c" and "worker_step w c = Some c'"
  shows "in_phase c'"
  unfolding in_phase_def
proof
  fix v
  from assms(2) have w: "w < length (wpcs c)"
    by (cases "w < length (wpcs c)") (simp_all add: worker_step_simps)
  note I = in_phase_D [OF assms(1), of v] in_phase_D [OF assms(1), of w]
  show "phase_of v (trace (shared c')) =
      (if v < length (wpcs c') then pc_phase (wpcs c' ! v) else Between)"
  proof (cases "wpcs c ! w")
    case W_acquire
    with assms(2) w I show ?thesis
      by (cases "v = w")
        (auto simp: worker_step_simps lock_worker_simps split: if_splits)
  next
    case W_take_job
    with assms(2) w I show ?thesis
      by (cases "v = w")
        (auto simp: worker_step_simps split: option.splits)
  next
    case (W_capture fn deliver)
    with assms(2) w I show ?thesis
      by (cases "v = w")
        (auto simp: worker_step_simps emit_def phase_of_snoc)
  next
    case (W_register fn deliver result)
    with assms(2) w I show ?thesis
      by (cases "v = w")
        (auto simp: worker_step_simps register_idle_simps phase_of_snoc)
  next
    case (W_deliver fn deliver result)
    with assms(2) w I show ?thesis
      by (cases "v = w")
        (auto simp: worker_step_simps call_deliver_simps phase_of_snoc)
  next
    case W_del_idle
    with assms(2) w I show ?thesis
      by (cases "v = w")
        (auto simp: worker_step_simps emit_def phase_of_snoc split: if_splits)
  next
    case W_exited
    with assms(2) w show ?thesis
      by (simp add: worker_step_simps)
  next
    case (W_crashed e)
    with assms(2) w show ?thesis
      by (simp add: worker_step_simps)
  qed
qed

lemma in_phase_caller:
  assumes "in_phase c" and "caller_step k c = Some c'"
  shows "in_phase c'"
  unfolding in_phase_def
proof
  fix v
  from assms(2) have k: "k < length (cpcs c)"
    by (cases "k < length (cpcs c)") (simp_all add: caller_step_simps)
  note I = in_phase_D [OF assms(1), of v]
  show "phase_of v (trace (shared c')) =
      (if v < length (wpcs c') then pc_phase (wpcs c' ! v) else Between)"
  proof (cases "cpcs c ! k")
    case (C_pop fn deliver)
    with assms(2) k I show ?thesis
      by (auto simp: caller_step_simps WorkerThread_init_def Let_def emit_def
          phase_of_snoc nth_append split: if_splits)
  next
    case (C_set_job worker fn deliver)
    with assms(2) k I show ?thesis
      by (auto simp: caller_step_simps set_job_simps phase_of_snoc)
  next
    case (C_release worker)
    with assms(2) k I show ?thesis
      by (auto simp: caller_step_simps emit_def phase_of_snoc split: if_splits)
  next
    case C_returned
    with assms(2) k show ?thesis
      by (simp add: caller_step_simps)
  next
    case (C_raised e)
    with assms(2) k show ?thesis
      by (simp add: caller_step_simps)
  qed
qed

lemma in_phase_start_fails:
  assumes "in_phase c" and "step (Start_fails k e) c = Some c'"
  shows "in_phase c'"
proof -
  from start_fails_step [OF assms(2)] obtain fn deliver
    where c': "c' = c\<lparr>shared := (shared c)\<lparr>name_counter := Suc (name_counter (shared c))\<rparr>,
        cpcs := (cpcs c)[k := C_raised e]\<rparr>"
    by blast
  from assms(1) show ?thesis
    by (simp add: in_phase_def c')
qed

lemma in_phase_report_fails:
  assumes "in_phase c" and "step (Report_fails w rep) c = Some c'"
  shows "in_phase c'"
  unfolding in_phase_def
proof
  fix v
  from report_fails_step [OF assms(2)] obtain fn deliver result e'
    where w: "w < length (wpcs c)" and p: "wpcs c ! w = W_deliver fn deliver result"
      and c': "c' = c\<lparr>shared := snd (call_deliver w fn deliver result rep (shared c)),
        wpcs := (wpcs c)[w := W_crashed e']\<rparr>"
    by blast
  show "phase_of v (trace (shared c')) =
      (if v < length (wpcs c') then pc_phase (wpcs c' ! v) else Between)"
    using in_phase_D [OF assms(1), of v] in_phase_D [OF assms(1), of w] w p
    by (cases "v = w") (auto simp: c' call_deliver_simps phase_of_snoc)
qed

lemma in_phase_step:
  assumes "in_phase c" and "step a c = Some c'"
  shows "in_phase c'"
proof (cases a)
  case (Call fn deliver)
  with assms show ?thesis
    by (auto simp: in_phase_def)
next
  case (Caller k)
  with assms show ?thesis
    by (simp add: in_phase_caller)
next
  case (Worker w)
  with assms show ?thesis
    by (simp add: in_phase_worker)
next
  case (Timeout w)
  with assms show ?thesis
    by (simp add: in_phase_timeout)
next
  case (Start_fails k e)
  with assms show ?thesis
    by (blast intro: in_phase_start_fails)
next
  case (Report_fails w rep)
  with assms show ?thesis
    by (blast intro: in_phase_report_fails)
qed

lemma in_phase_run:
  "in_phase c \<Longrightarrow> run sched c = Some c' \<Longrightarrow> in_phase c'"
proof (induction sched arbitrary: c)
  case Nil
  then show ?case by simp
next
  case (Cons a sched)
  from Cons.prems(2) obtain c1 where s: "step a c = Some c1" and r: "run sched c1 = Some c'"
    by (auto split: option.splits)
  from Cons.prems(1) s have "in_phase c1"
    by (rule in_phase_step)
  from Cons.IH [OF this r] show ?case .
qed

lemma foldl_next_phase_Wrong: "foldl next_phase Wrong es = Wrong"
  by (induction es) simp_all

lemma next_phase_Registered:
  "next_phase p e = Registered fn deliver r \<Longrightarrow>
   p = Ran fn deliver r \<and> (\<exists>w. e = Ev_registered w)"
  by (cases p; cases e) (auto split: if_splits)

lemma next_phase_Ran:
  "next_phase p e = Ran fn deliver r \<Longrightarrow> p = Between \<and> (\<exists>w. e = Ev_ran w fn deliver r)"
  by (cases p; cases e) (auto split: if_splits)

lemma next_phase_deliver:
  "next_phase p (Ev_deliver_called w fn deliver r) \<noteq> Wrong \<Longrightarrow> p = Registered fn deliver r"
  by (cases p) (auto split: if_splits)

lemma phase_Registered_suffix:
  assumes "foldl next_phase Between pre = Registered fn deliver r"
    and "\<forall>e\<in>set pre. by_worker e = Some w"
  shows "\<exists>pre'. pre = pre' @ [Ev_ran w fn deliver r, Ev_registered w]"
proof (cases pre rule: rev_cases)
  case Nil
  with assms(1) show ?thesis by simp
next
  case (snoc pre1 e1)
  with assms(1) have "next_phase (foldl next_phase Between pre1) e1 = Registered fn deliver r"
    by simp
  from next_phase_Registered [OF this] obtain w1
    where p1: "foldl next_phase Between pre1 = Ran fn deliver r" and e1: "e1 = Ev_registered w1"
    by blast
  from assms(2) snoc e1 have w1: "w1 = w" by simp
  show ?thesis
  proof (cases pre1 rule: rev_cases)
    case Nil
    with p1 show ?thesis by simp
  next
    case (snoc pre2 e2)
    with p1 have "next_phase (foldl next_phase Between pre2) e2 = Ran fn deliver r"
      by simp
    from next_phase_Ran [OF this] obtain w2 where e2: "e2 = Ev_ran w2 fn deliver r"
      by blast
    from assms(2) \<open>pre = pre1 @ [e1]\<close> snoc e2 have "w2 = w" by simp
    with \<open>pre = pre1 @ [e1]\<close> snoc e1 e2 w1 show ?thesis by simp
  qed
qed

lemma not_Wrong_deliver:
  assumes "phase_of w tr \<noteq> Wrong"
    and "own_events w tr = pre @ Ev_deliver_called w fn deliver r # post"
  shows "\<exists>pre'. pre = pre' @ [Ev_ran w fn deliver r, Ev_registered w]"
proof -
  let ?p = "foldl next_phase Between pre"
  from assms have "foldl next_phase (next_phase ?p (Ev_deliver_called w fn deliver r)) post \<noteq> Wrong"
    by (simp add: phase_of_def)
  then have "next_phase ?p (Ev_deliver_called w fn deliver r) \<noteq> Wrong"
    using foldl_next_phase_Wrong by metis
  then have p: "?p = Registered fn deliver r"
    by (rule next_phase_deliver)
  have "set pre \<subseteq> set (own_events w tr)"
    using assms(2) by auto
  then have "\<forall>e\<in>set pre. by_worker e = Some w"
    by (auto simp: own_events_def)
  with p show ?thesis
    by (rule phase_Registered_suffix)
qed

lemma in_phase_not_Wrong: "in_phase c \<Longrightarrow> phase_of w (trace (shared c)) \<noteq> Wrong"
proof -
  assume "in_phase c"
  from in_phase_D [OF this, of w] show ?thesis
    by (cases "wpcs c ! w") (simp_all split: if_splits)
qed

text \<open>
  Claim C2, as stated, in the run \<open>race_schedule\<close>. Worker 0 has registered as idle for
  its first job, and its next statement is the call of \<open>deliver\<close>; the second
  \<open>start_thread_soon\<close> has already popped it, so the registry does not hold worker 0 when
  \<open>deliver\<close> is called: the pop stands between the registration and the call in the
  trace.
\<close>

theorem deliver_while_absent:
  "run race_schedule init_config \<noteq> None \<and>
   wpcs (the (run race_schedule init_config)) ! 0 = W_deliver returns_seven deliver_ok (Value 7) \<and>
   0 \<notin> set (idle_workers (shared (the (run race_schedule init_config)))) \<and>
   map_option (trace \<circ> shared) (step (Worker 0) (the (run race_schedule init_config))) =
     Some [Ev_spawned 0, Ev_job_set 0, Ev_released 0, Ev_ran 0 returns_seven deliver_ok (Value 7),
           Ev_registered 0, Ev_popped 0, Ev_deliver_called 0 returns_seven deliver_ok (Value 7)]"
  by (simp add: race_run worker_step_simps call_deliver_simps)

text \<open>
  Claim C2, amended. In every run, and for every worker, each call of \<open>deliver\<close> with a
  result comes right after the worker's registration as idle, which comes right after
  the run of \<open>fn\<close> that gave this result: among the worker's own statements nothing
  stands between them. The registration puts the worker into the idle registry and
  leaves it at the call of \<open>deliver\<close>. Statements of other threads can stand between
  the two: when the worker is no longer in the registry at the call of \<open>deliver\<close>, a
  \<open>start_thread_soon\<close> has popped it and a job is on its way to it.
\<close>

theorem registered_before_deliver:
  assumes "run sched init_config = Some c"
  shows "(\<forall>pre fn deliver r post.
            own_events w (trace (shared c)) = pre @ Ev_deliver_called w fn deliver r # post \<longrightarrow>
            (\<exists>pre'. pre = pre' @ [Ev_ran w fn deliver r, Ev_registered w])) \<and>
         (\<forall>fn deliver result.
            w < length (wpcs c) \<and> wpcs c ! w = W_register fn deliver result \<longrightarrow>
            (\<exists>c'. worker_step w c = Some c' \<and>
                wpcs c' ! w = W_deliver fn deliver result \<and>
                w \<in> set (idle_workers (shared c')) \<and>
                trace (shared c') = trace (shared c) @ [Ev_registered w])) \<and>
         (\<forall>fn deliver result.
            w < length (wpcs c) \<and> wpcs c ! w = W_deliver fn deliver result \<and>
            w \<notin> set (idle_workers (shared c)) \<longrightarrow>
            job_coming c w)"
proof (intro conjI allI impI)
  fix pre fn deliver r post
  assume d: "own_events w (trace (shared c)) = pre @ Ev_deliver_called w fn deliver r # post"
  from in_phase_init assms have "in_phase c"
    by (rule in_phase_run)
  then have "phase_of w (trace (shared c)) \<noteq> Wrong"
    by (rule in_phase_not_Wrong)
  from this d show "\<exists>pre'. pre = pre' @ [Ev_ran w fn deliver r, Ev_registered w]"
    by (rule not_Wrong_deliver)
next
  fix fn deliver result
  assume "w < length (wpcs c) \<and> wpcs c ! w = W_register fn deliver result"
  then show "\<exists>c'. worker_step w c = Some c' \<and>
      wpcs c' ! w = W_deliver fn deliver result \<and>
      w \<in> set (idle_workers (shared c')) \<and>
      trace (shared c') = trace (shared c) @ [Ev_registered w]"
    by (simp add: worker_step_simps register_idle_simps dict_setitem_def)
next
  fix fn deliver result
  assume a: "w < length (wpcs c) \<and> wpcs c ! w = W_deliver fn deliver result \<and>
      w \<notin> set (idle_workers (shared c))"
  from assms have safe: "safe c" by (rule run_safe)
  from a have "w < length (wpcs c)" "parked (wpcs c ! w)"
    "w \<notin> set (idle_workers (shared c))"
    by simp_all
  with safe show "job_coming c w"
    by (rule safe_parked_absent)
qed

theorem registered_before_deliver_witness:
  "(\<exists>c. run (race_schedule @ [Worker 0]) init_config = Some c \<and>
      own_events 0 (trace (shared c)) =
        [Ev_ran 0 returns_seven deliver_ok (Value 7), Ev_registered 0] @ Ev_deliver_called 0 returns_seven deliver_ok (Value 7) # [] \<and>
      (\<exists>pre'. [Ev_ran 0 returns_seven deliver_ok (Value 7), Ev_registered 0 :: int event] =
         pre' @ [Ev_ran 0 returns_seven deliver_ok (Value 7), Ev_registered 0])) \<and>
   (\<exists>c. run register_schedule init_config = Some c \<and>
      0 < length (wpcs c) \<and> wpcs c ! 0 = W_register returns_seven deliver_ok (Value 7) \<and>
      (\<exists>c'. worker_step 0 c = Some c' \<and>
         wpcs c' ! 0 = W_deliver returns_seven deliver_ok (Value 7) \<and>
         0 \<in> set (idle_workers (shared c')) \<and>
         trace (shared c') = trace (shared c) @ [Ev_registered 0])) \<and>
   (\<exists>c. run race_schedule init_config = Some c \<and>
      0 < length (wpcs c) \<and> wpcs c ! 0 = W_deliver returns_seven deliver_ok (Value 7) \<and>
      0 \<notin> set (idle_workers (shared c)) \<and> job_coming c 0)"
proof (intro conjI)
  obtain c where r: "run (race_schedule @ [Worker 0]) init_config = Some c"
    and o: "own_events 0 (trace (shared c)) =
        [Ev_ran 0 returns_seven deliver_ok (Value 7), Ev_registered 0] @ Ev_deliver_called 0 returns_seven deliver_ok (Value 7) # []"
    by (simp add: race_deliver_run own_events_def)
  from registered_before_deliver [OF r, of 0] o
  have "\<exists>pre'. [Ev_ran 0 returns_seven deliver_ok (Value 7), Ev_registered 0 :: int event] =
         pre' @ [Ev_ran 0 returns_seven deliver_ok (Value 7), Ev_registered 0]"
    by blast
  with r o show "\<exists>c. run (race_schedule @ [Worker 0]) init_config = Some c \<and>
      own_events 0 (trace (shared c)) =
        [Ev_ran 0 returns_seven deliver_ok (Value 7), Ev_registered 0] @ Ev_deliver_called 0 returns_seven deliver_ok (Value 7) # [] \<and>
      (\<exists>pre'. [Ev_ran 0 returns_seven deliver_ok (Value 7), Ev_registered 0 :: int event] =
         pre' @ [Ev_ran 0 returns_seven deliver_ok (Value 7), Ev_registered 0])"
    by blast
next
  obtain c where r: "run register_schedule init_config = Some c"
    and p: "0 < length (wpcs c)" "wpcs c ! 0 = W_register returns_seven deliver_ok (Value 7)"
    by (simp add: register_run)
  from registered_before_deliver [OF r, of 0] p
  have "\<exists>c'. worker_step 0 c = Some c' \<and>
         wpcs c' ! 0 = W_deliver returns_seven deliver_ok (Value 7) \<and>
         0 \<in> set (idle_workers (shared c')) \<and>
         trace (shared c') = trace (shared c) @ [Ev_registered 0]"
    by blast
  with r p show "\<exists>c. run register_schedule init_config = Some c \<and>
      0 < length (wpcs c) \<and> wpcs c ! 0 = W_register returns_seven deliver_ok (Value 7) \<and>
      (\<exists>c'. worker_step 0 c = Some c' \<and>
         wpcs c' ! 0 = W_deliver returns_seven deliver_ok (Value 7) \<and>
         0 \<in> set (idle_workers (shared c')) \<and>
         trace (shared c') = trace (shared c) @ [Ev_registered 0])"
    by blast
next
  obtain c where r: "run race_schedule init_config = Some c"
    and p: "0 < length (wpcs c)" "wpcs c ! 0 = W_deliver returns_seven deliver_ok (Value 7)"
      "0 \<notin> set (idle_workers (shared c))"
    by (simp add: race_run)
  from registered_before_deliver [OF r, of 0] p
  have "job_coming c 0"
    by blast
  with r p show "\<exists>c. run race_schedule init_config = Some c \<and>
      0 < length (wpcs c) \<and> wpcs c ! 0 = W_deliver returns_seven deliver_ok (Value 7) \<and>
      0 \<notin> set (idle_workers (shared c)) \<and> job_coming c 0"
    by blast
qed

section \<open>No job is lost\<close>

























lemma sum_list_zero:
  fixes f :: "'a \<Rightarrow> nat"
  shows "sum_list (map f xs) = 0 \<Longrightarrow> k < length xs \<Longrightarrow> f (xs ! k) = 0"
  by (simp add: sum_list_eq_0_iff)






















lemma job_stays_lost:
  assumes "safe c" and "run sched c = Some c'"
    and "w < length (wpcs c)" and "crashed (wpcs c ! w)"
    and "worker_lock (workers (shared c) ! w) = Unlocked"
  shows "w < length (wpcs c') \<and> wpcs c' ! w = wpcs c ! w \<and>
         workers (shared c') ! w = workers (shared c) ! w"
  using assms
proof (induction sched arbitrary: c)
  case Nil
  then show ?case by simp
next
  case (Cons a sched)
  from Cons.prems(2) obtain c1 where s: "step a c = Some c1" and r: "run sched c1 = Some c'"
    by (auto split: option.splits)
  note S = safe_D [OF Cons.prems(1)]
  note w = Cons.prems(3)
  from S(1) w have ww: "w < length (workers (shared c))" by simp
  note U = ok_unlocked [OF safe_worker_ok [OF Cons.prems(1) w] Cons.prems(5)]
  from Cons.prems(4) obtain e where pc: "wpcs c ! w = W_crashed e"
    by (cases "wpcs c ! w") simp_all
  have one: "w < length (wpcs c1) \<and> wpcs c1 ! w = wpcs c ! w \<and>
      workers (shared c1) ! w = workers (shared c) ! w"
  proof (cases a)
    case (Call fn deliver)
    with s w show ?thesis by auto
  next
    case (Caller k)
    with s have cs: "caller_step k c = Some c1" by simp
    then have k: "k < length (cpcs c)"
      by (cases "k < length (cpcs c)") (simp_all add: caller_step_simps)
    show ?thesis
    proof (cases "cpcs c ! k")
      case (C_pop fn deliver)
      with cs k w ww show ?thesis
        by (cases "idle_workers (shared c) = []")
          (auto simp: caller_step_simps WorkerThread_init_simps emit_def nth_append)
    next
      case (C_set_job v fn deliver)
      have "v \<noteq> w"
      proof
        assume "v = w"
        with k C_set_job have "0 < length (filter (setting w) (cpcs c))"
          using count_pos [of k "cpcs c" "setting w"] by simp
        with U show False by simp
      qed
      with cs k w C_set_job show ?thesis
        by (auto simp: caller_step_simps set_job_def emit_def)
    next
      case (C_release v)
      have "v \<noteq> w"
      proof
        assume "v = w"
        with k C_release have "0 < length (filter (releasing w) (cpcs c))"
          using count_pos [of k "cpcs c" "releasing w"] by simp
        with U show False by simp
      qed
      with cs k w C_release show ?thesis
        by (auto simp: caller_step_simps emit_def split: if_splits)
    next
      case C_returned
      with cs show ?thesis by (simp add: caller_step_simps)
    next
      case (C_raised e)
      with cs show ?thesis by (simp add: caller_step_simps)
    qed
  next
    case (Worker v)
    with s have ws: "worker_step v c = Some c1" by simp
    then have v: "v < length (wpcs c)"
      by (cases "v < length (wpcs c)") (simp_all add: worker_step_simps)
    from ws pc have neq: "v \<noteq> w"
      by (auto simp: worker_step_simps)
    from ws v w neq show ?thesis
      by (cases "wpcs c ! v")
        (auto simp: worker_step_simps lock_worker_def emit_def register_idle_simps
          call_deliver_simps split: if_splits option.splits)
  next
    case (Timeout v)
    with s have ts: "timeout_step v c = Some c1" by simp
    then have v: "v < length (wpcs c)"
      by (cases "v < length (wpcs c)") (simp_all add: timeout_step_simps)
    from ts v pc have neq: "v \<noteq> w"
      by (auto simp: timeout_step_simps split: if_splits)
    from ts v w neq show ?thesis
      by (auto simp: timeout_step_simps split: if_splits)
  next
    case (Start_fails k e)
    with s start_fails_step [of k e c c1] w show ?thesis
      by auto
  next
    case (Report_fails v rep)
    with s have rs: "step (Report_fails v rep) c = Some c1" by simp
    from report_fails_step [OF rs] pc have neq: "v \<noteq> w"
      by auto
    from report_fails_step [OF rs] w neq show ?thesis
      by (auto simp: call_deliver_simps)
  qed
  from Cons.prems(1) s have s1: "safe c1" by (rule safe_step)
  from one Cons.prems(4,5) have "w < length (wpcs c1)" "crashed (wpcs c1 ! w)"
    "worker_lock (workers (shared c1) ! w) = Unlocked"
    by simp_all
  from Cons.IH [OF s1 r this] one show ?case
    by simp
qed



text \<open>
  However that run goes on, worker 0 stays dead and the second job stays in its slot.
\<close>

lemma lost_job_never_run:
  assumes "run sched' lost_config = Some c'"
  shows "wpcs c' ! 0 = W_crashed stderr_closed \<and>
         job (workers (shared c') ! 0) = Some (returns_seven, deliver_ok)"
proof -
  from lost_run have "safe lost_config" by (rule run_safe)
  from job_stays_lost [OF this assms, of 0] show ?thesis
    by (simp add: lost_config_def)
qed



end
